theory Spec2Isabelle
  imports Main
begin

section \<open>Scores: Python numbers extended with the two float infinities\<close>

text \<open>
  The search of \<^verbatim>\<open>try4.py\<close> mixes the integer results of the evaluators with
  \<^verbatim>\<open>float('inf')\<close> and \<^verbatim>\<open>float('-inf')\<close>.  Python compares them exactly, so a
  score is an integer or one of the two infinities, totally ordered.
\<close>

datatype score = NegInf | Fin int | PosInf

instantiation score :: linorder
begin

fun less_eq_score :: "score \<Rightarrow> score \<Rightarrow> bool" where
  "less_eq_score NegInf _ = True"
| "less_eq_score (Fin a) NegInf = False"
| "less_eq_score (Fin a) (Fin b) = (a \<le> b)"
| "less_eq_score (Fin a) PosInf = True"
| "less_eq_score PosInf PosInf = True"
| "less_eq_score PosInf _ = False"

definition less_score :: "score \<Rightarrow> score \<Rightarrow> bool" where
  "less_score a b = (a \<le> b \<and> \<not> b \<le> a)"

instance
proof
  fix x y z :: score
  show "(x < y) = (x \<le> y \<and> \<not> y \<le> x)" by (simp add: less_score_def)
  show "x \<le> x" by (cases x) simp_all
  show "x \<le> y \<Longrightarrow> y \<le> z \<Longrightarrow> x \<le> z" by (cases x; cases y; cases z) simp_all
  show "x \<le> y \<Longrightarrow> y \<le> x \<Longrightarrow> x = y" by (cases x; cases y) simp_all
  show "x \<le> y \<or> y \<le> x" by (cases x; cases y) auto
qed

end

section \<open>Board model\<close>

text \<open>
  An observation is a 6 by 7 numpy array: row 0 is the top row, row 5 the bottom row,
  and a cell holds 0 (empty), 1 (the engine) or -1 (the opponent).  The array is a list
  of rows; \<open>wf_board\<close> is the shape the source indexes without any check.
\<close>

type_synonym board = "int list list"

definition wf_board :: "board \<Rightarrow> bool" where
  "wf_board b = (length b = 6 \<and> list_all (\<lambda>row. length row = 7) b)"

text \<open>\<^verbatim>\<open>board[r, c]\<close> and the in-place store \<^verbatim>\<open>board[r, c] = v\<close>.\<close>

definition cell :: "board \<Rightarrow> nat \<Rightarrow> nat \<Rightarrow> int" where
  "cell b r c = b ! r ! c"

definition set_cell :: "board \<Rightarrow> nat \<Rightarrow> nat \<Rightarrow> int \<Rightarrow> board" where
  "set_cell b r c v = b[r := (b ! r)[c := v]]"

text \<open>
  The exceptions of the class: the \<^verbatim>\<open>ValueError\<close> that \<^verbatim>\<open>_apply_move\<close> raises, and the
  \<^verbatim>\<open>IndexError\<close> of \<^verbatim>\<open>valid_moves[0]\<close> on an empty list.
\<close>

datatype error = ValueError | IndexError

text \<open>
  \<^verbatim>\<open>_apply_move\<close>: the copy of the board is scanned from row 5 up to row 0; the first
  empty cell of the column takes the piece and the function returns the new board, the
  row and the column.  Falling out of the loop raises.
\<close>

fun drop_scan :: "board \<Rightarrow> nat \<Rightarrow> int \<Rightarrow> nat list \<Rightarrow> error + (board \<times> nat \<times> nat)" where
  "drop_scan new_board move player [] = Inl ValueError"
| "drop_scan new_board move player (i # rest) =
     (if cell new_board i move = 0
      then Inr (set_cell new_board i move player, i, move)
      else drop_scan new_board move player rest)"

definition apply_move :: "board \<Rightarrow> nat \<Rightarrow> int \<Rightarrow> error + (board \<times> nat \<times> nat)" where
  "apply_move board move player = drop_scan board move player (rev [0..<6])"

text \<open>
  The same function over an explicit store of arrays, to observe what the copy does:
  \<^verbatim>\<open>board.copy()\<close> allocates a new array at the next free address and every write
  of the loop goes to that address.
\<close>

type_synonym store = "board list"

fun drop_scan_store :: "store \<Rightarrow> nat \<Rightarrow> nat \<Rightarrow> int \<Rightarrow> nat list \<Rightarrow> error + (store \<times> nat \<times> nat \<times> nat)" where
  "drop_scan_store s new_ref move player [] = Inl ValueError"
| "drop_scan_store s new_ref move player (i # rest) =
     (if cell (s ! new_ref) i move = 0
      then Inr (s[new_ref := set_cell (s ! new_ref) i move player], new_ref, i, move)
      else drop_scan_store s new_ref move player rest)"

definition apply_move_store :: "store \<Rightarrow> nat \<Rightarrow> nat \<Rightarrow> int \<Rightarrow> error + (store \<times> nat \<times> nat \<times> nat)" where
  "apply_move_store s ref move player =
     drop_scan_store (s @ [s ! ref]) (length s) move player (rev [0..<6])"

text \<open>
  \<^verbatim>\<open>_check_win\<close>: for each of the four directions the seven cells around the anchor
  are walked with a counter that restarts at every cell that is off the board or not
  the player's; the function returns at the fourth consecutive hit.
\<close>

definition directions :: "(int \<times> int) list" where
  "directions = [(1, 0), (0, 1), (1, 1), (1, -1)]"

definition steps :: "int list" where
  "steps = [-3, -2, -1, 0, 1, 2, 3]"

fun count_run :: "board \<Rightarrow> int \<Rightarrow> nat \<Rightarrow> nat \<Rightarrow> int \<times> int \<Rightarrow> int list \<Rightarrow> nat \<Rightarrow> bool" where
  "count_run board player row col d [] count = False"
| "count_run board player row col d (step # rest) count =
     (let r = int row + step * fst d; c = int col + step * snd d in
      if 0 \<le> r \<and> r < 6 \<and> 0 \<le> c \<and> c < 7 \<and> cell board (nat r) (nat c) = player
      then (if count + 1 = 4 then True
            else count_run board player row col d rest (count + 1))
      else count_run board player row col d rest 0)"

definition check_win :: "board \<Rightarrow> int \<Rightarrow> nat \<Rightarrow> nat \<Rightarrow> bool" where
  "check_win board player row col =
     list_ex (\<lambda>d. count_run board player row col d steps 0) directions"

text \<open>The legal moves of \<^verbatim>\<open>_minimax\<close>: the columns whose top cell is empty, ascending.\<close>

definition valid_moves :: "board \<Rightarrow> nat list" where
  "valid_moves board = filter (\<lambda>c. cell board 0 c = 0) [0..<7]"

text \<open>
  The gravity invariant of the data model: in no column does a piece sit directly
  above an empty cell.
\<close>

definition gravity :: "board \<Rightarrow> bool" where
  "gravity b =
     list_all (\<lambda>c. list_all (\<lambda>r. cell b r c = 0 \<or> cell b (Suc r) c \<noteq> 0) [0..<5]) [0..<7]"

text \<open>The horizontal mirror image of a board: column \<open>c\<close> becomes column \<open>6 - c\<close>.\<close>

definition mirror :: "board \<Rightarrow> board" where
  "mirror b = map rev b"

section \<open>Static evaluators\<close>

text \<open>
  \<^verbatim>\<open>_simple_evaluate_board\<close>: one simulated drop of the engine's piece per open column.
\<close>

fun simple_loop :: "board \<Rightarrow> nat list \<Rightarrow> int \<Rightarrow> error + int" where
  "simple_loop board [] score = Inr score"
| "simple_loop board (move # rest) score =
     (if cell board 0 move = 0 then
        (case apply_move board move 1 of
           Inl e \<Rightarrow> Inl e
         | Inr (new_board, row, col) \<Rightarrow>
             if check_win new_board 1 row col then simple_loop board rest (score + 100)
             else if check_win new_board (- 1) row col then simple_loop board rest (score - 100)
             else simple_loop board rest score)
      else simple_loop board rest score)"

definition simple_evaluate_board :: "board \<Rightarrow> error + int" where
  "simple_evaluate_board board = simple_loop board [0..<7] 0"

text \<open>
  \<^verbatim>\<open>_evaluate_line\<close>: the four windows of four cells inside a line of seven; a cell off
  the board is \<^verbatim>\<open>None\<close> and counts for nobody.
\<close>

definition window_score :: "int option list \<Rightarrow> int \<Rightarrow> int" where
  "window_score window player =
     (if count_list window (Some player) = 4 then 1000
      else if count_list window (Some player) = 3 \<and> count_list window (Some 0) = 1 then 15
      else if count_list window (Some player) = 2 \<and> count_list window (Some 0) = 2 then 7
      else if count_list window (Some (- player)) = 3 \<and> count_list window (Some 0) = 1 then - 20
      else 0)"

definition evaluate_line :: "int option list \<Rightarrow> int \<Rightarrow> int" where
  "evaluate_line line player =
     fold (\<lambda>i score. score + window_score (take 4 (drop i line)) player) [0..<length line - 3] 0"

text \<open>\<^verbatim>\<open>_score_position\<close>: the four lines of seven cells through a cell.\<close>

definition line_through :: "board \<Rightarrow> nat \<Rightarrow> nat \<Rightarrow> int \<times> int \<Rightarrow> int option list" where
  "line_through board row col d =
     map (\<lambda>step. let r = int row + step * fst d; c = int col + step * snd d in
                  if 0 \<le> r \<and> r < 6 \<and> 0 \<le> c \<and> c < 7 then Some (cell board (nat r) (nat c))
                  else None) steps"

definition score_position :: "board \<Rightarrow> nat \<Rightarrow> nat \<Rightarrow> int \<Rightarrow> int" where
  "score_position board row col player =
     fold (\<lambda>d score. score + evaluate_line (line_through board row col d) player) directions 0"

text \<open>
  \<^verbatim>\<open>_detect_forks\<close>: the inner loop counts the open columns in which one more drop of
  the player wins; the outer loop visits every cell, and at an empty cell \<open>(r, c)\<close> drops
  the player's piece into column \<open>c\<close> (the row \<open>r\<close> is used for the emptiness test only).
\<close>

fun count_winning_moves :: "board \<Rightarrow> int \<Rightarrow> nat list \<Rightarrow> nat \<Rightarrow> error + nat" where
  "count_winning_moves simulated_board player [] winning_moves = Inr winning_moves"
| "count_winning_moves simulated_board player (move # rest) winning_moves =
     (if cell simulated_board 0 move = 0 then
        (case apply_move simulated_board move player of
           Inl e \<Rightarrow> Inl e
         | Inr (test_board, test_row, test_col) \<Rightarrow>
             count_winning_moves simulated_board player rest
               (if check_win test_board player test_row test_col
                then winning_moves + 1 else winning_moves))
      else count_winning_moves simulated_board player rest winning_moves)"

fun detect_forks_loop :: "board \<Rightarrow> int \<Rightarrow> (nat \<times> nat) list \<Rightarrow> int \<Rightarrow> error + int" where
  "detect_forks_loop board player [] fork_score = Inr fork_score"
| "detect_forks_loop board player ((r, c) # rest) fork_score =
     (if cell board r c = 0 then
        (case apply_move board c player of
           Inl e \<Rightarrow> Inl e
         | Inr (simulated_board, row, col) \<Rightarrow>
             (case count_winning_moves simulated_board player [0..<7] 0 of
                Inl e \<Rightarrow> Inl e
              | Inr winning_moves \<Rightarrow>
                  detect_forks_loop board player rest
                    (if winning_moves > 1 then fork_score + 50 else fork_score)))
      else detect_forks_loop board player rest fork_score)"

definition cells :: "(nat \<times> nat) list" where
  "cells = List.product [0..<6] [0..<7]"

definition detect_forks :: "board \<Rightarrow> int \<Rightarrow> error + int" where
  "detect_forks board player = detect_forks_loop board player cells 0"

text \<open>
  \<^verbatim>\<open>_evaluate_board\<close>: centre column, line patterns of every occupied cell, forks.
\<close>

definition line_scores :: "board \<Rightarrow> int" where
  "line_scores board =
     (let center_array = map (\<lambda>i. cell board i 3) [0..<6];
          center_count = count_list center_array 1;
          score = int center_count * 4
      in fold (\<lambda>(r, c) score.
                 if cell board r c = 0 then score
                 else score + score_position board r c 1 - score_position board r c (- 1))
              cells score)"

definition evaluate_board :: "board \<Rightarrow> error + int" where
  "evaluate_board board =
     (let score = line_scores board in
      case detect_forks board 1 of
        Inl e \<Rightarrow> Inl e
      | Inr own_forks \<Rightarrow>
          (case detect_forks board (- 1) of
             Inl e \<Rightarrow> Inl e
           | Inr opponent_forks \<Rightarrow> Inr (score + own_forks - opponent_forks)))"

section \<open>The search\<close>

text \<open>The fields of a \<^verbatim>\<open>MinimaxPlayer\<close>.\<close>

record minimax_player =
  name :: string
  max_depth :: nat
  heuristic :: bool

text \<open>
  The cutoff of \<^verbatim>\<open>_minimax\<close>: the selected evaluator, paired with
  \<^verbatim>\<open>valid_moves[0] if valid_moves else None\<close>.
\<close>

definition first_or_none :: "nat list \<Rightarrow> nat option" where
  "first_or_none valid = (case valid of [] \<Rightarrow> None | c # _ \<Rightarrow> Some c)"

definition cutoff :: "minimax_player \<Rightarrow> board \<Rightarrow> nat list \<Rightarrow> error + (score \<times> nat option)" where
  "cutoff self board valid =
     (case (if heuristic self then evaluate_board board else simple_evaluate_board board) of
        Inl e \<Rightarrow> Inl e
      | Inr v \<Rightarrow> Inr (Fin v, first_or_none valid))"

text \<open>
  The end of either loop: \<^verbatim>\<open>if best_move is None: best_move = valid_moves[0]\<close>, then
  the return of the running extremum with the move.
\<close>

definition finish :: "score \<Rightarrow> nat option \<Rightarrow> nat list \<Rightarrow> error + (score \<times> nat option)" where
  "finish best_eval best_move valid =
     (case best_move of
        Some m \<Rightarrow> Inr (best_eval, Some m)
      | None \<Rightarrow> (case valid of [] \<Rightarrow> Inl IndexError | c # _ \<Rightarrow> Inr (best_eval, Some c)))"

type_synonym result = "error + (score \<times> nat option)"

text \<open>
  The two \<^verbatim>\<open>for move in valid_moves\<close> loops of \<^verbatim>\<open>_minimax\<close>.  A loop carries the
  moves still to try, \<open>alpha\<close>, \<open>beta\<close>, the running extremum and the best move;
  \<open>recurse\<close> is the recursive call \<^verbatim>\<open>self._minimax(new_board, depth - 1, ...)\<close> of its
  body, and \<open>valid\<close> the whole list of legal moves, read after the loop.
\<close>

fun max_loop :: "(board \<Rightarrow> score \<Rightarrow> score \<Rightarrow> result) \<Rightarrow> board \<Rightarrow> nat list \<Rightarrow> nat list \<Rightarrow>
    score \<Rightarrow> score \<Rightarrow> score \<Rightarrow> nat option \<Rightarrow> result" where
  "max_loop recurse board valid [] alpha beta max_eval best_move = finish max_eval best_move valid"
| "max_loop recurse board valid (move # rest) alpha beta max_eval best_move =
     (case apply_move board move 1 of
        Inl e \<Rightarrow> Inl e
      | Inr (new_board, row, col) \<Rightarrow>
          if check_win new_board 1 row col then Inr (PosInf, Some move)
          else
            (case recurse new_board alpha beta of
               Inl e \<Rightarrow> Inl e
             | Inr (eval_score, _) \<Rightarrow>
                 let max_eval' = (if eval_score > max_eval then eval_score else max_eval);
                     best_move' = (if eval_score > max_eval then Some move else best_move);
                     alpha' = max alpha eval_score
                 in if beta \<le> alpha' then finish max_eval' best_move' valid
                    else max_loop recurse board valid rest alpha' beta max_eval' best_move'))"

fun min_loop :: "(board \<Rightarrow> score \<Rightarrow> score \<Rightarrow> result) \<Rightarrow> board \<Rightarrow> nat list \<Rightarrow> nat list \<Rightarrow>
    score \<Rightarrow> score \<Rightarrow> score \<Rightarrow> nat option \<Rightarrow> result" where
  "min_loop recurse board valid [] alpha beta min_eval best_move = finish min_eval best_move valid"
| "min_loop recurse board valid (move # rest) alpha beta min_eval best_move =
     (case apply_move board move (- 1) of
        Inl e \<Rightarrow> Inl e
      | Inr (new_board, row, col) \<Rightarrow>
          if check_win new_board (- 1) row col then Inr (NegInf, Some move)
          else
            (case recurse new_board alpha beta of
               Inl e \<Rightarrow> Inl e
             | Inr (eval_score, _) \<Rightarrow>
                 let min_eval' = (if eval_score < min_eval then eval_score else min_eval);
                     best_move' = (if eval_score < min_eval then Some move else best_move);
                     beta' = min beta eval_score
                 in if beta' \<le> alpha then finish min_eval' best_move' valid
                    else min_loop recurse board valid rest alpha beta' min_eval' best_move'))"

text \<open>\<^verbatim>\<open>_minimax\<close>, by recursion on the depth.\<close>

primrec minimax :: "minimax_player \<Rightarrow> board \<Rightarrow> nat \<Rightarrow> bool \<Rightarrow> score \<Rightarrow> score \<Rightarrow> result" where
  "minimax self board 0 maximizing alpha beta = cutoff self board (valid_moves board)"
| "minimax self board (Suc d) maximizing alpha beta =
     (if valid_moves board = [] then cutoff self board (valid_moves board)
      else if maximizing
      then max_loop (\<lambda>new_board. minimax self new_board d False) board
             (valid_moves board) (valid_moves board) alpha beta NegInf None
      else min_loop (\<lambda>new_board. minimax self new_board d True) board
             (valid_moves board) (valid_moves board) alpha beta PosInf None)"

section \<open>The decision facade\<close>

text \<open>\<^verbatim>\<open>_minimax_decision\<close> and \<^verbatim>\<open>play\<close>; an observation is one board or a list of boards.\<close>

definition minimax_decision :: "minimax_player \<Rightarrow> board \<Rightarrow> error + nat option" where
  "minimax_decision self observation =
     (case minimax self observation (max_depth self) True NegInf PosInf of
        Inl e \<Rightarrow> Inl e
      | Inr (_, best_move) \<Rightarrow> Inr best_move)"

fun decide_all :: "minimax_player \<Rightarrow> board list \<Rightarrow> error + nat option list" where
  "decide_all self [] = Inr []"
| "decide_all self (ob # obs) =
     (case minimax_decision self ob of
        Inl e \<Rightarrow> Inl e
      | Inr m \<Rightarrow> (case decide_all self obs of Inl e \<Rightarrow> Inl e | Inr ms \<Rightarrow> Inr (m # ms)))"

datatype observation = Single board | Batch "board list"

datatype action = Move "nat option" | Moves "nat option list"

fun play :: "minimax_player \<Rightarrow> observation \<Rightarrow> error + action" where
  "play self (Batch obs) =
     (case decide_all self obs of Inl e \<Rightarrow> Inl e | Inr ms \<Rightarrow> Inr (Moves ms))"
| "play self (Single ob) =
     (case minimax_decision self ob of Inl e \<Rightarrow> Inl e | Inr m \<Rightarrow> Inr (Move m))"

definition isDeterministic :: "minimax_player \<Rightarrow> bool" where
  "isDeterministic self = True"

section \<open>Reference definitions for the claims\<close>

text \<open>
  A drop of \<open>player\<close> into \<open>move\<close> that completes four in a row: the two lines
  \<^verbatim>\<open>_apply_move\<close>, \<^verbatim>\<open>_check_win\<close> that open the body of every loop of the search.
\<close>

definition immediate_win :: "board \<Rightarrow> nat \<Rightarrow> int \<Rightarrow> bool" where
  "immediate_win board move player =
     (case apply_move board move player of
        Inl e \<Rightarrow> False
      | Inr (new_board, row, col) \<Rightarrow> check_win new_board player row col)"

text \<open>
  The full minimax that the specification compares the search with: the same game
  tree, the same legal moves in the same order, the same evaluator at the cutoff, the
  same strict update of the best move.  It has no \<open>alpha\<close>, no \<open>beta\<close> and no cutoff, and
  it never leaves a loop early: a drop that completes four in a row is a leaf of the
  tree with the score \<open>PosInf\<close> for the engine and \<open>NegInf\<close> for the opponent, and the
  loop goes on to the next column.
\<close>

fun full_max_loop :: "(board \<Rightarrow> result) \<Rightarrow> board \<Rightarrow> nat list \<Rightarrow> nat list \<Rightarrow>
    score \<Rightarrow> nat option \<Rightarrow> result" where
  "full_max_loop recurse board valid [] max_eval best_move = finish max_eval best_move valid"
| "full_max_loop recurse board valid (move # rest) max_eval best_move =
     (case apply_move board move 1 of
        Inl e \<Rightarrow> Inl e
      | Inr (new_board, row, col) \<Rightarrow>
          (case (if check_win new_board 1 row col then Inr (PosInf, Some move)
                 else recurse new_board) of
             Inl e \<Rightarrow> Inl e
           | Inr (eval_score, _) \<Rightarrow>
               full_max_loop recurse board valid rest
                 (if eval_score > max_eval then eval_score else max_eval)
                 (if eval_score > max_eval then Some move else best_move)))"

fun full_min_loop :: "(board \<Rightarrow> result) \<Rightarrow> board \<Rightarrow> nat list \<Rightarrow> nat list \<Rightarrow>
    score \<Rightarrow> nat option \<Rightarrow> result" where
  "full_min_loop recurse board valid [] min_eval best_move = finish min_eval best_move valid"
| "full_min_loop recurse board valid (move # rest) min_eval best_move =
     (case apply_move board move (- 1) of
        Inl e \<Rightarrow> Inl e
      | Inr (new_board, row, col) \<Rightarrow>
          (case (if check_win new_board (- 1) row col then Inr (NegInf, Some move)
                 else recurse new_board) of
             Inl e \<Rightarrow> Inl e
           | Inr (eval_score, _) \<Rightarrow>
               full_min_loop recurse board valid rest
                 (if eval_score < min_eval then eval_score else min_eval)
                 (if eval_score < min_eval then Some move else best_move)))"

primrec full :: "minimax_player \<Rightarrow> board \<Rightarrow> nat \<Rightarrow> bool \<Rightarrow> result" where
  "full self board 0 maximizing = cutoff self board (valid_moves board)"
| "full self board (Suc d) maximizing =
     (if valid_moves board = [] then cutoff self board (valid_moves board)
      else if maximizing
      then full_max_loop (\<lambda>new_board. full self new_board d False) board
             (valid_moves board) (valid_moves board) NegInf None
      else full_min_loop (\<lambda>new_board. full self new_board d True) board
             (valid_moves board) (valid_moves board) PosInf None)"

text \<open>
  The value of a legal move for the side that plays it (\<open>player\<close> 1 maximises, \<open>player\<close>
  -1 minimises): the infinity of that side when the drop wins at once, and otherwise the
  score of the full minimax of the position after the drop, \<open>d\<close> plies deep, with the
  other side to move.
\<close>

definition move_value :: "minimax_player \<Rightarrow> board \<Rightarrow> nat \<Rightarrow> int \<Rightarrow> nat \<Rightarrow> score option" where
  "move_value self board d player move =
     (case apply_move board move player of
        Inl e \<Rightarrow> None
      | Inr (new_board, row, col) \<Rightarrow>
          (case (if check_win new_board player row col
                 then Inr (if player = 1 then PosInf else NegInf, Some move)
                 else full self new_board d (player \<noteq> 1)) of
             Inl e \<Rightarrow> None
           | Inr (eval_score, _) \<Rightarrow> Some eval_score))"

text \<open>
  The number of open columns in which one more drop of \<open>player\<close> wins, and the fork test
  of \<^verbatim>\<open>_detect_forks\<close> after a drop into column \<open>c\<close>.
\<close>

definition winning_columns :: "board \<Rightarrow> int \<Rightarrow> nat" where
  "winning_columns board player =
     length (filter (\<lambda>move. immediate_win board move player) (valid_moves board))"

definition drop_makes_fork :: "board \<Rightarrow> nat \<Rightarrow> int \<Rightarrow> bool" where
  "drop_makes_fork board c player =
     (case apply_move board c player of
        Inl e \<Rightarrow> False
      | Inr (simulated_board, row, col) \<Rightarrow> 1 < winning_columns simulated_board player)"

definition fork_cells :: "board \<Rightarrow> int \<Rightarrow> (nat \<times> nat) list" where
  "fork_cells board player =
     filter (\<lambda>(r, c). cell board r c = 0 \<and> drop_makes_fork board c player) cells"

text \<open>
  The fork term as the specification words it: the piece is put on the empty cell
  itself, and the cell counts when more than one column then wins.
\<close>

definition spec_fork_cells :: "board \<Rightarrow> int \<Rightarrow> (nat \<times> nat) list" where
  "spec_fork_cells board player =
     filter (\<lambda>(r, c). cell board r c = 0 \<and> 1 < winning_columns (set_cell board r c player) player)
       cells"

definition spec_fork_bonus :: "board \<Rightarrow> int \<Rightarrow> int" where
  "spec_fork_bonus board player = 50 * int (length (spec_fork_cells board player))"

text \<open>Boards and players for the concrete checks.\<close>

definition empty_board :: board where
  "empty_board = replicate 6 (replicate 7 0)"

definition open_three :: board where
  "open_three = replicate 5 (replicate 7 0) @ [[0, 0, 1, 1, 1, 0, 0]]"

definition open_two :: board where
  "open_two = replicate 5 (replicate 7 0) @ [[0, 0, 1, 1, 0, 0, 0]]"

definition simple_player :: "nat \<Rightarrow> minimax_player" where
  "simple_player depth = \<lparr>name = ''MinimaxPlayer'', max_depth = depth, heuristic = False\<rparr>"

definition tall_column :: board where
  "tall_column = [[1, 0, 0, 0, 0, 0, 0], [- 1, 0, 0, 0, 0, 0, 0], [1, 0, 0, 0, 0, 0, 0],
                  [- 1, 0, 0, 0, 0, 0, 0], [1, 0, 0, 0, 0, 0, 0], [- 1, 0, 0, 0, 0, 0, 0]]"

definition full_board :: board where
  "full_board = replicate 6 [1, - 1, 1, - 1, 1, - 1, 1]"

text \<open>The test of the loop body of \<^verbatim>\<open>_check_win\<close> at one step, named for the proofs.\<close>

definition hit :: "board \<Rightarrow> int \<Rightarrow> nat \<Rightarrow> nat \<Rightarrow> int \<times> int \<Rightarrow> int \<Rightarrow> bool" where
  "hit board player row col d step =
     (let r = int row + step * fst d; c = int col + step * snd d in
      0 \<le> r \<and> r < 6 \<and> 0 \<le> c \<and> c < 7 \<and> cell board (nat r) (nat c) = player)"

section \<open>Facts about the board model\<close>

lemma wf_set_cell: "wf_board b \<Longrightarrow> wf_board (set_cell b r c v)"
proof (cases "r < length b")
  case True
  assume "wf_board b"
  then show ?thesis using True
    by (auto simp: wf_board_def set_cell_def list_all_length nth_list_update)
next
  case False
  assume "wf_board b"
  then show ?thesis using False by (simp add: set_cell_def list_update_beyond)
qed

lemma cell_set_cell:
  "wf_board b \<Longrightarrow> r < 6 \<Longrightarrow> c < 7 \<Longrightarrow>
   cell (set_cell b r c v) r' c' = (if r' = r \<and> c' = c then v else cell b r' c')"
  by (auto simp: cell_def set_cell_def wf_board_def list_all_length nth_list_update)

lemma drop_scan_find:
  "drop_scan b m p rs =
     (case find (\<lambda>i. cell b i m = 0) rs of
        None \<Rightarrow> Inl ValueError
      | Some i \<Rightarrow> Inr (set_cell b i m p, i, m))"
  by (induction rs) simp_all

lemma find_rev_upt:
  "find P (rev [0..<n]) = Some i \<longleftrightarrow> i < n \<and> P i \<and> (\<forall>j. i < j \<and> j < n \<longrightarrow> \<not> P j)"
proof (induction n)
  case 0
  then show ?case by simp
next
  case (Suc n)
  show ?case
  proof (cases "P n")
    case True
    then show ?thesis by (auto simp: less_Suc_eq)
  next
    case False
    then show ?thesis using Suc by (auto simp: less_Suc_eq)
  qed
qed

lemma find_rev_upt_None: "find P (rev [0..<n]) = None \<longleftrightarrow> (\<forall>j<n. \<not> P j)"
  by (auto simp: find_None_iff)

lemma apply_move_Inl: "apply_move b m p = Inl e \<longleftrightarrow> e = ValueError \<and> (\<forall>j<6. cell b j m \<noteq> 0)"
  unfolding apply_move_def drop_scan_find
  by (auto simp: find_rev_upt_None find_rev_upt
           simp del: find.simps rev_rev_ident upt_Suc split: option.splits)

lemma apply_move_Inr:
  "apply_move b m p = Inr (nb, i, c) \<longleftrightarrow>
     (i < 6 \<and> cell b i m = 0 \<and> (\<forall>j. i < j \<and> j < 6 \<longrightarrow> cell b j m \<noteq> 0) \<and>
      nb = set_cell b i m p \<and> c = m)"
proof -
  have "apply_move b m p = Inr (nb, i, c) \<longleftrightarrow>
        find (\<lambda>i. cell b i m = 0) (rev [0..<6]) = Some i \<and> nb = set_cell b i m p \<and> c = m"
    unfolding apply_move_def drop_scan_find by (auto split: option.splits)
  then show ?thesis unfolding find_rev_upt by blast
qed

lemma apply_move_open:
  assumes "r < 6" "cell b r m = 0"
  shows "\<exists>nb i. apply_move b m p = Inr (nb, i, m) \<and> i < 6 \<and> nb = set_cell b i m p"
proof (cases "apply_move b m p")
  case (Inl e)
  then show ?thesis using assms by (auto simp: apply_move_Inl)
next
  case (Inr t)
  then show ?thesis by (cases t) (auto simp: apply_move_Inr)
qed

lemma apply_move_wf:
  "wf_board b \<Longrightarrow> apply_move b m p = Inr (nb, i, c) \<Longrightarrow> wf_board nb"
  by (auto simp: apply_move_Inr wf_set_cell)

lemma drop_scan_store:
  "drop_scan_store (s @ [b]) (length s) m p rs =
     (case drop_scan b m p rs of
        Inl e \<Rightarrow> Inl e
      | Inr (nb, i, c) \<Rightarrow> Inr (s @ [nb], length s, i, c))"
  by (induction rs) simp_all

lemma gravity_iff:
  "gravity b \<longleftrightarrow> (\<forall>c<7. \<forall>r<5. cell b r c \<noteq> 0 \<longrightarrow> cell b (Suc r) c \<noteq> 0)"
  unfolding gravity_def list_all_iff by (simp add: Ball_def) blast

lemma gravity_below:
  assumes "gravity b" "c < 7" "cell b r c \<noteq> 0" "r \<le> j" "j < 6"
  shows "cell b j c \<noteq> 0"
  using assms(4,5)
proof (induction j)
  case 0
  then show ?case using assms(3) by simp
next
  case (Suc j)
  show ?case
  proof (cases "r = Suc j")
    case True
    then show ?thesis using assms(3) by simp
  next
    case False
    then have "cell b j c \<noteq> 0" using Suc by simp
    moreover have "j < 5" using Suc.prems by simp
    ultimately show ?thesis using assms(1,2) by (simp add: gravity_iff)
  qed
qed

lemma valid_moves_iff: "c \<in> set (valid_moves b) \<longleftrightarrow> c < 7 \<and> cell b 0 c = 0"
  by (auto simp: valid_moves_def)

lemma valid_moves_sorted: "sorted (valid_moves b) \<and> distinct (valid_moves b)"
  by (simp add: valid_moves_def sorted_wrt_filter)

text \<open>
  Claim C4.  On a 6 by 7 board that satisfies the gravity invariant, a drop of a nonzero
  \<open>player\<close> into a column that has an empty cell succeeds; the returned board is again
  6 by 7 and satisfies the gravity invariant; it differs from the input in exactly one
  cell, the returned \<open>(landed, column)\<close>, which was empty and now holds \<open>player\<close>.
  The input array is left as it was: over a store of arrays the function appends the
  new board at a fresh address and writes nowhere else.
\<close>
theorem apply_move_keeps_gravity:
  assumes "wf_board board" and "gravity board" and "column < 7" and "player \<noteq> 0"
    and "\<exists>r<6. cell board r column = 0"
  shows "\<exists>new_board landed.
           apply_move board column player = Inr (new_board, landed, column) \<and>
           landed < 6 \<and> wf_board new_board \<and> gravity new_board \<and>
           cell board landed column = 0 \<and> cell new_board landed column = player \<and>
           (\<forall>r<6. \<forall>c<7. (r, c) \<noteq> (landed, column) \<longrightarrow> cell new_board r c = cell board r c) \<and>
           (\<forall>s ref. ref < length s \<and> s ! ref = board \<longrightarrow>
              apply_move_store s ref column player = Inr (s @ [new_board], length s, landed, column))"
proof -
  from assms(5) obtain r where r: "r < 6" "cell board r column = 0" by blast
  obtain nb i where am: "apply_move board column player = Inr (nb, i, column)"
    and i: "i < 6" and nb: "nb = set_cell board i column player"
    using apply_move_open[OF r] by blast
  have below: "\<forall>j. i < j \<and> j < 6 \<longrightarrow> cell board j column \<noteq> 0" and empty: "cell board i column = 0"
    using am by (auto simp: apply_move_Inr)
  have upd: "cell nb r' c' = (if r' = i \<and> c' = column then player else cell board r' c')" for r' c'
    unfolding nb using cell_set_cell[OF assms(1) i assms(3)] by simp
  have grav: "gravity nb"
    unfolding gravity_iff
  proof (intro allI impI)
    fix c r' assume c: "c < 7" and r': "r' < 5" and occ: "cell nb r' c \<noteq> 0"
    show "cell nb (Suc r') c \<noteq> 0"
    proof (cases "c = column")
      case False
      then show ?thesis using occ assms(2) c r' by (simp add: upd gravity_iff)
    next
      case True
      show ?thesis
      proof (cases "Suc r' = i")
        case True
        then show ?thesis using \<open>c = column\<close> assms(4) by (simp add: upd)
      next
        case False
        show ?thesis
        proof (cases "r' = i")
          case True
          then show ?thesis using below r' \<open>c = column\<close> by (simp add: upd)
        next
          case False
          then show ?thesis using occ assms(2) c r' \<open>Suc r' \<noteq> i\<close> by (simp add: upd gravity_iff)
        qed
      qed
    qed
  qed
  have store: "apply_move_store s ref column player = Inr (s @ [nb], length s, i, column)"
    if "ref < length s \<and> s ! ref = board" for s ref
    using that am by (simp add: apply_move_store_def drop_scan_store apply_move_def)
  show ?thesis
    using am i wf_set_cell[OF assms(1)] grav empty upd store unfolding nb by auto
qed

text \<open>
  Claim C5.  On every board a drop fails, with \<^verbatim>\<open>ValueError\<close> and without a new
  board, exactly when the column has no empty cell, and a column is a legal move of the
  search exactly when it is below 7 and its top cell is empty.  On a board of the data
  model (gravity invariant) a column whose top cell is occupied has no empty cell: the
  drop into it raises \<^verbatim>\<open>ValueError\<close> and the column is not a legal move.
\<close>
theorem apply_move_full_column:
  "((\<exists>e. apply_move board column player = Inl e) \<longleftrightarrow> (\<forall>r<6. cell board r column \<noteq> 0)) \<and>
   (column \<in> set (valid_moves board) \<longleftrightarrow> column < 7 \<and> cell board 0 column = 0) \<and>
   (gravity board \<and> column < 7 \<and> cell board 0 column \<noteq> 0 \<longrightarrow>
      apply_move board column player = Inl ValueError \<and>
      column \<notin> set (valid_moves board) \<and> (\<forall>r<6. cell board r column \<noteq> 0))"
proof -
  have full: "\<forall>r<6. cell board r column \<noteq> 0"
    if "gravity board" "column < 7" "cell board 0 column \<noteq> 0"
    using gravity_below[OF that] by simp
  show ?thesis using full by (auto simp: apply_move_Inl valid_moves_iff)
qed

lemma wf_empty_board: "wf_board empty_board"
  by (simp add: wf_board_def empty_board_def list_all_iff)

lemma gravity_empty_board: "gravity empty_board"
  by code_simp

lemma wf_open_three: "wf_board open_three"
  by (simp add: wf_board_def open_three_def list_all_iff)

lemma wf_tall_column: "wf_board tall_column"
  by (simp add: wf_board_def tall_column_def)

lemma gravity_tall_column: "gravity tall_column"
  by code_simp

theorem apply_move_keeps_gravity_witness:
  "\<exists>new_board landed.
     apply_move empty_board 3 1 = Inr (new_board, landed, 3) \<and> landed < 6 \<and>
     wf_board new_board \<and> gravity new_board \<and>
     cell empty_board landed 3 = 0 \<and> cell new_board landed 3 = 1 \<and>
     apply_move_store [empty_board] 0 3 1 = Inr ([empty_board, new_board], 1, landed, 3)"
proof -
  have open_cell: "\<exists>r<6. cell empty_board r 3 = 0"
    by (rule exI[of _ 0]) (simp add: cell_def empty_board_def)
  obtain nb l where *: "apply_move empty_board 3 1 = Inr (nb, l, 3)" "l < 6" "wf_board nb" "gravity nb"
     "cell empty_board l 3 = 0" "cell nb l 3 = 1"
     "\<forall>s ref. ref < length s \<and> s ! ref = empty_board \<longrightarrow>
              apply_move_store s ref 3 1 = Inr (s @ [nb], length s, l, 3)"
    using apply_move_keeps_gravity[OF wf_empty_board gravity_empty_board _ _ open_cell, of 1]
    by auto
  from *(7) have "apply_move_store [empty_board] 0 3 1 = Inr ([empty_board] @ [nb], length [empty_board], l, 3)"
    by (metis length_Cons less_Suc_eq_0_disj nth_Cons_0)
  then show ?thesis using * by auto
qed

theorem apply_move_full_column_witness:
  "apply_move tall_column 0 1 = Inl ValueError \<and> 0 \<notin> set (valid_moves tall_column) \<and>
   cell tall_column 0 0 \<noteq> 0"
proof -
  have top: "cell tall_column 0 0 \<noteq> 0" by (simp add: cell_def tall_column_def)
  show ?thesis
    using apply_move_full_column[of tall_column 0 1] gravity_tall_column top by simp
qed

section \<open>Win detection\<close>

lemma count_run_Cons:
  "count_run b p row col d (s # rest) n =
     (if hit b p row col d s then (if n + 1 = 4 then True else count_run b p row col d rest (n + 1))
      else count_run b p row col d rest 0)"
  by (simp add: hit_def Let_def)

lemma count_run_steps:
  "count_run b p row col d steps 0 =
     ((hit b p row col d (- 3) \<and> hit b p row col d (- 2) \<and> hit b p row col d (- 1) \<and> hit b p row col d 0) \<or>
      (hit b p row col d (- 2) \<and> hit b p row col d (- 1) \<and> hit b p row col d 0 \<and> hit b p row col d 1) \<or>
      (hit b p row col d (- 1) \<and> hit b p row col d 0 \<and> hit b p row col d 1 \<and> hit b p row col d 2) \<or>
      (hit b p row col d 0 \<and> hit b p row col d 1 \<and> hit b p row col d 2 \<and> hit b p row col d 3))"
  unfolding steps_def count_run_Cons by (simp del: count_run.simps(2))

lemma cell_mirror: "wf_board b \<Longrightarrow> r < 6 \<Longrightarrow> c < 7 \<Longrightarrow> cell (mirror b) r c = cell b r (6 - c)"
  by (auto simp: wf_board_def mirror_def cell_def list_all_length rev_nth)

lemma hit_mirror:
  assumes "wf_board b" "col < 7"
  shows "hit (mirror b) p row (6 - col) (dr, dc) s = hit b p row col (dr, - dc) s"
proof -
  have "cell (mirror b) (nat (int row + s * dr)) (nat (6 - int col + s * dc))
        = cell b (nat (int row + s * dr)) (nat (int col - s * dc))"
    if "0 \<le> int row + s * dr" "int row + s * dr < 6" "0 \<le> 6 - int col + s * dc" "6 - int col + s * dc < 7"
  proof -
    have "6 - nat (6 - int col + s * dc) = nat (int col - s * dc)" using that assms by linarith
    then show ?thesis
      using cell_mirror[OF assms(1), of "nat (int row + s * dr)" "nat (6 - int col + s * dc)"] that
      by simp
  qed
  then show ?thesis using assms
    by (auto simp: hit_def Let_def of_nat_diff)
qed

lemma hit_flip: "hit b p row col (0, - 1) s = hit b p row col (0, 1) (- s)"
  by (simp add: hit_def Let_def)

lemma count_run_mirror:
  assumes "wf_board b" "col < 7"
  shows "count_run (mirror b) p row (6 - col) (1, 0) steps 0 = count_run b p row col (1, 0) steps 0"
    and "count_run (mirror b) p row (6 - col) (0, 1) steps 0 = count_run b p row col (0, 1) steps 0"
    and "count_run (mirror b) p row (6 - col) (1, 1) steps 0 = count_run b p row col (1, - 1) steps 0"
    and "count_run (mirror b) p row (6 - col) (1, - 1) steps 0 = count_run b p row col (1, 1) steps 0"
proof -
  show "count_run (mirror b) p row (6 - col) (1, 0) steps 0 = count_run b p row col (1, 0) steps 0"
    by (simp only: count_run_steps hit_mirror[OF assms] minus_zero)
  show "count_run (mirror b) p row (6 - col) (1, 1) steps 0 = count_run b p row col (1, - 1) steps 0"
    by (simp only: count_run_steps hit_mirror[OF assms])
  show "count_run (mirror b) p row (6 - col) (1, - 1) steps 0 = count_run b p row col (1, 1) steps 0"
    by (simp only: count_run_steps hit_mirror[OF assms] minus_minus)
  show "count_run (mirror b) p row (6 - col) (0, 1) steps 0 = count_run b p row col (0, 1) steps 0"
    unfolding count_run_steps hit_mirror[OF assms] hit_flip by simp blast
qed

text \<open>
  Claim C8.  Win detection is invariant under the horizontal mirror: for every 6 by 7
  board, every player, every row and every column \<open>col < 7\<close>, \<open>check_win\<close> at
  \<open>(row, col)\<close> equals \<open>check_win\<close> of the mirrored board at \<open>(row, 6 - col)\<close>.
\<close>
theorem check_win_mirror:
  assumes "wf_board board" and "col < 7"
  shows "check_win board player row col = check_win (mirror board) player row (6 - col)"
  unfolding check_win_def directions_def
  by (simp only: list_ex_Nil_iff list_ex_Cons_iff count_run_mirror[OF assms] simp_thms) blast

theorem check_win_mirror_witness:
  "check_win open_three 1 5 1 = check_win (mirror open_three) 1 5 (6 - 1)"
  using check_win_mirror[OF wf_open_three, of 1 1 5] by simp

lemma count_run_anchor:
  "\<not> hit b p row col d 0 \<Longrightarrow> \<not> count_run b p row col d steps 0"
  by (simp add: count_run_steps)

lemma check_win_anchor:
  assumes "row < 6" "col < 7" "cell b row col \<noteq> p"
  shows "\<not> check_win b p row col"
proof -
  have "\<not> hit b p row col d 0" for d using assms by (simp add: hit_def)
  then show ?thesis by (simp add: check_win_def list_ex_iff count_run_anchor)
qed

section \<open>The evaluators\<close>

lemma immediate_win_Inr:
  "apply_move b m p = Inr (nb, row, col) \<Longrightarrow> immediate_win b m p = check_win nb p row col"
  by (simp add: immediate_win_def)

lemma landing_cell:
  assumes "wf_board b" "m < 7" "apply_move b m p = Inr (nb, row, col)"
  shows "row < 6 \<and> col = m \<and> cell nb row col = p"
  using assms by (auto simp: apply_move_Inr cell_set_cell)

lemma simple_loop_count:
  assumes "wf_board b" "\<forall>c \<in> set ms. c < 7"
  shows "simple_loop b ms score =
           Inr (score + 100 * int (length (filter (\<lambda>c. immediate_win b c 1)
                                             (filter (\<lambda>c. cell b 0 c = 0) ms))))"
  using assms(2)
proof (induction ms arbitrary: score)
  case Nil
  then show ?case by simp
next
  case (Cons move rest)
  show ?case
  proof (cases "cell b 0 move = 0")
    case False
    then show ?thesis using Cons by simp
  next
    case True
    obtain nb i where am: "apply_move b move 1 = Inr (nb, i, move)"
      using apply_move_open[of 0 b move 1] True by auto
    have "move < 7" using Cons.prems by simp
    from landing_cell[OF assms(1) this am] have "i < 6" "cell nb i move \<noteq> - 1" by auto
    then have no: "\<not> check_win nb (- 1) i move"
      using check_win_anchor[of i move nb "- 1"] \<open>move < 7\<close> by simp
    show ?thesis
      using Cons True am no by (simp add: immediate_win_Inr[OF am])
  qed
qed

text \<open>
  Claim C10.  On a 6 by 7 board the simple evaluation is 100 times the number of legal
  columns in which a drop of the engine's piece wins at once.  The branch that
  subtracts 100 is never taken: after a legal drop the opponent's win test at the
  landing cell fails, because that cell holds the engine's piece.  The evaluation is
  never negative.
\<close>
theorem simple_evaluate_counts_wins:
  assumes "wf_board board"
  shows "simple_evaluate_board board =
           Inr (100 * int (length (filter (\<lambda>c. immediate_win board c 1) (valid_moves board)))) \<and>
         (\<forall>move \<in> set (valid_moves board). \<forall>new_board row col.
            apply_move board move 1 = Inr (new_board, row, col) \<longrightarrow>
            \<not> check_win new_board (- 1) row col) \<and>
         (\<exists>v. simple_evaluate_board board = Inr v \<and> 0 \<le> v)"
proof -
  have eq: "simple_evaluate_board board =
           Inr (100 * int (length (filter (\<lambda>c. immediate_win board c 1) (valid_moves board))))"
    unfolding simple_evaluate_board_def valid_moves_def
    using simple_loop_count[OF assms, of "[0..<7]" 0] by simp
  have "\<not> check_win nb (- 1) row col"
    if "move \<in> set (valid_moves board)" "apply_move board move 1 = Inr (nb, row, col)" for move nb row col
  proof -
    have "move < 7" using that(1) by (simp add: valid_moves_iff)
    from landing_cell[OF assms this that(2)] show ?thesis
      using check_win_anchor[of row col nb "- 1"] \<open>move < 7\<close> by auto
  qed
  then show ?thesis using eq by auto
qed

lemma simple_evaluate_open_three: "simple_evaluate_board open_three = Inr 200"
  by code_simp

theorem simple_evaluate_counts_wins_witness:
  "simple_evaluate_board open_three =
     Inr (100 * int (length (filter (\<lambda>c. immediate_win open_three c 1) (valid_moves open_three)))) \<and>
   simple_evaluate_board open_three = Inr 200"
  using simple_evaluate_counts_wins[OF wf_open_three] simple_evaluate_open_three by simp

lemma count_winning_moves_count:
  "count_winning_moves sb p ms wm =
     Inr (wm + length (filter (\<lambda>m. immediate_win sb m p) (filter (\<lambda>m. cell sb 0 m = 0) ms)))"
proof (induction ms arbitrary: wm)
  case Nil
  then show ?case by simp
next
  case (Cons move rest)
  show ?case
  proof (cases "cell sb 0 move = 0")
    case False
    then show ?thesis using Cons by simp
  next
    case True
    obtain nb i where am: "apply_move sb move p = Inr (nb, i, move)"
      using apply_move_open[of 0 sb move p] True by auto
    show ?thesis using Cons True am by (simp add: immediate_win_Inr[OF am])
  qed
qed

lemma count_winning_moves_all:
  "count_winning_moves sb p [0..<7] 0 = Inr (winning_columns sb p)"
  unfolding count_winning_moves_count winning_columns_def valid_moves_def by simp

lemma detect_forks_loop_count:
  assumes "\<forall>(r, c) \<in> set cs. r < 6"
  shows "detect_forks_loop b p cs fs =
           Inr (fs + 50 * int (length (filter (\<lambda>(r, c). cell b r c = 0 \<and> drop_makes_fork b c p) cs)))"
  using assms
proof (induction cs arbitrary: fs)
  case Nil
  then show ?case by simp
next
  case (Cons rc rest)
  obtain r c where rc: "rc = (r, c)" by (cases rc)
  have r: "r < 6" using Cons.prems rc by simp
  have rest: "\<forall>(r, c) \<in> set rest. r < 6" using Cons.prems by simp
  show ?case
  proof (cases "cell b r c = 0")
    case False
    then show ?thesis using Cons.IH[OF rest] rc by simp
  next
    case True
    obtain sb i where am: "apply_move b c p = Inr (sb, i, c)"
      using apply_move_open[OF r True, of p] by blast
    show ?thesis
      using Cons.IH[OF rest] rc True am
      by (simp add: count_winning_moves_all drop_makes_fork_def)
  qed
qed

lemma cells_rows: "\<forall>(r, c) \<in> set cells. r < 6"
  by (auto simp: cells_def)

lemma detect_forks_count:
  "detect_forks b p = Inr (50 * int (length (fork_cells b p)))"
  unfolding detect_forks_def fork_cells_def
  using detect_forks_loop_count[OF cells_rows, of b p 0] by simp

text \<open>
  Claim C6, as the code has it.  The fork term is 50 times the number of empty cells
  \<open>(r, c)\<close> for which a drop of the player into column \<open>c\<close> (the piece lands on the
  lowest empty cell of the column, which need not be \<open>(r, c)\<close>) leaves more than one
  open column that wins at the next drop of the same player; a column that makes a fork
  therefore counts once for each of its empty cells.  The board evaluation adds the term
  of the engine and subtracts the term of the opponent.
\<close>
theorem fork_term_counts_columns:
  "detect_forks board player = Inr (50 * int (length (fork_cells board player))) \<and>
   evaluate_board board =
     Inr (line_scores board + 50 * int (length (fork_cells board 1))
                            - 50 * int (length (fork_cells board (- 1))))"
  by (simp add: detect_forks_count evaluate_board_def)

text \<open>
  With the piece put on the empty cell itself, as the specification words the fork term,
  the board \<open>open_two\<close> has two fork cells (bonus 100); the code returns 600.
\<close>

theorem fork_term_counterexample:
  "detect_forks open_two 1 \<noteq> Inr (spec_fork_bonus open_two 1)"
  by code_simp

lemma simple_loop_total: "\<exists>v. simple_loop b ms score = Inr v"
proof (induction ms arbitrary: score)
  case Nil
  then show ?case by simp
next
  case (Cons move rest)
  show ?case
  proof (cases "cell b 0 move = 0")
    case False
    then show ?thesis using Cons by simp
  next
    case True
    obtain nb i where am: "apply_move b move 1 = Inr (nb, i, move)"
      using apply_move_open[of 0 b move 1] True by auto
    show ?thesis using Cons True am by simp
  qed
qed

lemma cutoff_total: "\<exists>v. cutoff self b valid = Inr (Fin v, first_or_none valid)"
proof (cases "heuristic self")
  case True
  then show ?thesis
    by (simp add: cutoff_def evaluate_board_def detect_forks_count)
next
  case False
  obtain v where "simple_evaluate_board b = Inr v"
    using simple_loop_total[of b "[0..<7]" 0] by (auto simp: simple_evaluate_board_def)
  then show ?thesis using False by (simp add: cutoff_def)
qed

section \<open>The search returns, and returns a legal move\<close>

lemma score_bounds [simp]:
  "x \<le> PosInf" "NegInf \<le> x" "PosInf \<le> x \<longleftrightarrow> x = PosInf" "x \<le> NegInf \<longleftrightarrow> x = NegInf"
  "x < PosInf \<longleftrightarrow> x \<noteq> PosInf" "NegInf < x \<longleftrightarrow> x \<noteq> NegInf"
  "\<not> PosInf < x" "\<not> x < NegInf"
  by (cases x; simp add: less_score_def)+

lemma finish_Inr:
  "valid \<noteq> [] \<Longrightarrow>
   finish v best valid = Inr (v, Some (case best of None \<Rightarrow> hd valid | Some m \<Rightarrow> m))"
  by (cases valid; cases best) (simp_all add: finish_def)

lemma valid_move_applies:
  "cell b 0 c = 0 \<Longrightarrow> \<exists>nb i. apply_move b c p = Inr (nb, i, c)"
  using apply_move_open[of 0 b c p] by auto

lemma max_loop_legal:
  assumes total: "\<And>nb a b'. \<exists>e m. recurse nb a b' = Inr (e, m)"
    and "\<forall>c \<in> set ms. cell board 0 c = 0" and "set ms \<subseteq> set valid" and "valid \<noteq> []"
    and "case best of None \<Rightarrow> True | Some m \<Rightarrow> m \<in> set valid \<and> max_eval \<noteq> NegInf"
  shows "\<exists>v c. max_loop recurse board valid ms alpha beta max_eval best = Inr (v, Some c) \<and>
               c \<in> set valid \<and> (v = NegInf \<longrightarrow> c = hd valid)"
  using assms(2,3,5)
proof (induction ms arbitrary: alpha max_eval best)
  case Nil
  then show ?case using assms(4) hd_in_set[OF assms(4)] by (auto simp: finish_Inr split: option.splits)
next
  case (Cons move rest)
  obtain nb i where am: "apply_move board move 1 = Inr (nb, i, move)"
    using valid_move_applies[of board move 1] Cons.prems(1) by auto
  obtain e m where rc: "recurse nb alpha beta = Inr (e, m)" using total by blast
  have mv: "move \<in> set valid" using Cons.prems(2) by simp
  show ?case
  proof (cases "check_win nb 1 i move")
    case True
    then show ?thesis using am mv by simp
  next
    case False
    let ?me = "if max_eval < e then e else max_eval"
    let ?best = "if max_eval < e then Some move else best"
    have inv: "case ?best of None \<Rightarrow> True | Some m \<Rightarrow> m \<in> set valid \<and> ?me \<noteq> NegInf"
      using Cons.prems(3) mv by (auto split: option.splits)
    show ?thesis
    proof (cases "beta \<le> max alpha e")
      case True
      have "finish ?me ?best valid = Inr (?me, Some (case ?best of None \<Rightarrow> hd valid | Some m \<Rightarrow> m))"
        by (rule finish_Inr[OF assms(4)])
      then show ?thesis using am False rc True inv hd_in_set[OF assms(4)]
        by (auto simp: Let_def split: option.splits)
    next
      case nobreak: False
      have "\<exists>v c. max_loop recurse board valid rest (max alpha e) beta ?me ?best = Inr (v, Some c) \<and>
               c \<in> set valid \<and> (v = NegInf \<longrightarrow> c = hd valid)"
        by (rule Cons.IH) (use Cons.prems(1,2) inv in simp_all)
      then show ?thesis using am False rc nobreak by (simp add: Let_def)
    qed
  qed
qed

lemma min_loop_legal:
  assumes total: "\<And>nb a b'. \<exists>e m. recurse nb a b' = Inr (e, m)"
    and "\<forall>c \<in> set ms. cell board 0 c = 0" and "set ms \<subseteq> set valid" and "valid \<noteq> []"
    and "case best of None \<Rightarrow> True | Some m \<Rightarrow> m \<in> set valid"
  shows "\<exists>v c. min_loop recurse board valid ms alpha beta min_eval best = Inr (v, Some c) \<and>
               c \<in> set valid"
  using assms(2,3,5)
proof (induction ms arbitrary: beta min_eval best)
  case Nil
  then show ?case using assms(4) hd_in_set[OF assms(4)] by (auto simp: finish_Inr split: option.splits)
next
  case (Cons move rest)
  obtain nb i where am: "apply_move board move (- 1) = Inr (nb, i, move)"
    using valid_move_applies[of board move "- 1"] Cons.prems(1) by auto
  obtain e m where rc: "recurse nb alpha beta = Inr (e, m)" using total by blast
  have mv: "move \<in> set valid" using Cons.prems(2) by simp
  show ?case
  proof (cases "check_win nb (- 1) i move")
    case True
    then show ?thesis using am mv by simp
  next
    case False
    let ?me = "if e < min_eval then e else min_eval"
    let ?best = "if e < min_eval then Some move else best"
    have inv: "case ?best of None \<Rightarrow> True | Some m \<Rightarrow> m \<in> set valid"
      using Cons.prems(3) mv by (auto split: option.splits)
    show ?thesis
    proof (cases "min beta e \<le> alpha")
      case True
      have "finish ?me ?best valid = Inr (?me, Some (case ?best of None \<Rightarrow> hd valid | Some m \<Rightarrow> m))"
        by (rule finish_Inr[OF assms(4)])
      then show ?thesis using am False rc True inv hd_in_set[OF assms(4)]
        by (auto simp: Let_def split: option.splits)
    next
      case nobreak: False
      have "\<exists>v c. min_loop recurse board valid rest alpha (min beta e) ?me ?best = Inr (v, Some c) \<and>
               c \<in> set valid"
        by (rule Cons.IH) (use Cons.prems(1,2) inv in simp_all)
      then show ?thesis using am False rc nobreak by (simp add: Let_def)
    qed
  qed
qed

lemma valid_moves_open: "\<forall>c \<in> set (valid_moves b). cell b 0 c = 0"
  by (simp add: valid_moves_iff)

lemma minimax_total: "\<exists>v m. minimax self b d mx alpha beta = Inr (v, m)"
proof (induction d arbitrary: b mx alpha beta)
  case 0
  then show ?case using cutoff_total[of self b "valid_moves b"] by auto
next
  case (Suc d)
  show ?case
  proof (cases "valid_moves b = []")
    case True
    then show ?thesis using cutoff_total[of self b "valid_moves b"] by auto
  next
    case False
    show ?thesis
    proof (cases mx)
      case True
      have "\<exists>v c. max_loop (\<lambda>nb. minimax self nb d False) b (valid_moves b) (valid_moves b)
                     alpha beta NegInf None = Inr (v, Some c) \<and> c \<in> set (valid_moves b) \<and>
                   (v = NegInf \<longrightarrow> c = hd (valid_moves b))"
        by (rule max_loop_legal[OF Suc valid_moves_open _ False]) simp_all
      then show ?thesis using True False by auto
    next
      case mn: False
      have "\<exists>v c. min_loop (\<lambda>nb. minimax self nb d True) b (valid_moves b) (valid_moves b)
                     alpha beta PosInf None = Inr (v, Some c) \<and> c \<in> set (valid_moves b)"
        by (rule min_loop_legal[OF Suc valid_moves_open _ False]) simp_all
      then show ?thesis using mn False by auto
    qed
  qed
qed

lemma first_or_none_hd: "valid \<noteq> [] \<Longrightarrow> first_or_none valid = Some (hd valid)"
  by (cases valid) (simp_all add: first_or_none_def)

lemma minimax_root_move:
  "\<exists>v m. minimax self b d True alpha beta = Inr (v, m) \<and>
         (m = None \<longleftrightarrow> valid_moves b = []) \<and>
         (\<forall>c. m = Some c \<longrightarrow> c \<in> set (valid_moves b)) \<and>
         (d = 0 \<or> v = NegInf \<longrightarrow> m = first_or_none (valid_moves b))"
proof (cases "d = 0 \<or> valid_moves b = []")
  case True
  obtain v where "cutoff self b (valid_moves b) = Inr (Fin v, first_or_none (valid_moves b))"
    using cutoff_total by blast
  moreover have "minimax self b d True alpha beta = cutoff self b (valid_moves b)"
    using True by (cases d) auto
  ultimately show ?thesis
    by (cases "valid_moves b") (auto simp: first_or_none_def)
next
  case False
  then obtain d' where d: "d = Suc d'" and ne: "valid_moves b \<noteq> []" by (cases d) auto
  have "\<exists>v c. max_loop (\<lambda>nb. minimax self nb d' False) b (valid_moves b) (valid_moves b)
                 alpha beta NegInf None = Inr (v, Some c) \<and> c \<in> set (valid_moves b) \<and>
               (v = NegInf \<longrightarrow> c = hd (valid_moves b))"
    by (rule max_loop_legal[OF minimax_total valid_moves_open _ ne]) simp_all
  then show ?thesis using d ne by (auto simp: first_or_none_hd)
qed

text \<open>
  Claim C3.  \<open>play\<close> on one board returns without an exception; the move is \<^verbatim>\<open>None\<close>
  exactly when there is no legal move, that is when every top cell is occupied, and
  otherwise a column below 7 whose top cell is empty, a member of the legal moves.  At
  depth 0 it is the first legal column, and so it is whenever the search scores the
  position \<open>NegInf\<close> (no child improved on the initial extremum).
\<close>
theorem play_returns_legal_move:
  "\<exists>m. play self (Single board) = Inr (Move m) \<and>
        (m = None \<longleftrightarrow> valid_moves board = []) \<and>
        (valid_moves board = [] \<longleftrightarrow> (\<forall>c<7. cell board 0 c \<noteq> 0)) \<and>
        (\<forall>c. m = Some c \<longrightarrow> c < 7 \<and> cell board 0 c = 0 \<and> c \<in> set (valid_moves board)) \<and>
        (max_depth self = 0 \<longrightarrow> m = first_or_none (valid_moves board)) \<and>
        (\<forall>m'. minimax self board (max_depth self) True NegInf PosInf = Inr (NegInf, m') \<longrightarrow>
           m = first_or_none (valid_moves board))"
proof -
  obtain v m where r: "minimax self board (max_depth self) True NegInf PosInf = Inr (v, m)"
    and "m = None \<longleftrightarrow> valid_moves board = []"
    and "\<forall>c. m = Some c \<longrightarrow> c \<in> set (valid_moves board)"
    and "max_depth self = 0 \<or> v = NegInf \<longrightarrow> m = first_or_none (valid_moves board)"
    using minimax_root_move[of self board "max_depth self" NegInf PosInf] by blast
  moreover have "valid_moves board = [] \<longleftrightarrow> (\<forall>c<7. cell board 0 c \<noteq> 0)"
    using valid_moves_iff[of _ board] by (metis all_not_in_conv set_empty)
  ultimately show ?thesis
    by (auto simp: minimax_decision_def valid_moves_iff)
qed

lemma valid_moves_full_board: "valid_moves full_board = []"
  by code_simp

lemma valid_moves_open_three: "valid_moves open_three = [0, 1, 2, 3, 4, 5, 6]"
  by code_simp

theorem play_returns_legal_move_witness:
  "play (simple_player 1) (Single full_board) = Inr (Move None) \<and>
   (\<exists>c. play (simple_player 1) (Single open_three) = Inr (Move (Some c)) \<and>
        c < 7 \<and> cell open_three 0 c = 0)"
  using play_returns_legal_move[of "simple_player 1" full_board]
    play_returns_legal_move[of "simple_player 1" open_three]
  by (auto simp: valid_moves_full_board valid_moves_open_three)

lemma minimax_evaluator_only:
  "heuristic s1 = heuristic s2 \<Longrightarrow> minimax s1 b d mx alpha beta = minimax s2 b d mx alpha beta"
proof (induction d arbitrary: b mx alpha beta)
  case 0
  then show ?case by (simp add: cutoff_def)
next
  case (Suc d)
  have "(\<lambda>nb. minimax s1 nb d mx') = (\<lambda>nb. minimax s2 nb d mx')" for mx'
    using Suc by (intro ext) simp
  then show ?case using Suc.prems by (simp add: cutoff_def)
qed

lemma decision_config_only:
  "max_depth s1 = max_depth s2 \<Longrightarrow> heuristic s1 = heuristic s2 \<Longrightarrow>
   minimax_decision s1 ob = minimax_decision s2 ob"
  by (simp add: minimax_decision_def minimax_evaluator_only[of s1 s2])

text \<open>
  The facade reads two fields of the player only, \<open>max_depth\<close> and \<open>heuristic\<close>: players
  that agree on both return the same result on the same observation, single or batched,
  whatever their names.
\<close>
lemma play_reads_depth_and_evaluator:
  assumes "max_depth s1 = max_depth s2" and "heuristic s1 = heuristic s2"
  shows "play s1 obs = play s2 obs \<and> isDeterministic s1"
proof -
  have "decide_all s1 os = decide_all s2 os" for os
    by (induction os) (simp_all add: decision_config_only[OF assms] split: sum.splits)
  then show ?thesis
    by (cases obs) (simp_all add: decision_config_only[OF assms] isDeterministic_def)
qed

section \<open>Pruning against the full minimax\<close>

lemma running_max: "(if (m::score) < e then e else m) = max m e"
  by (auto simp: max_def)

lemma running_min: "(if (e::score) < m then e else m) = min m e"
  by (auto simp: min_def)

text \<open>One step of either full loop, with the value \<open>E\<close> of the move.\<close>

lemma full_max_loop_step:
  assumes "apply_move board move 1 = Inr (nb, i, move)"
    and "(if check_win nb 1 i move then Inr (PosInf, Some move) else Recurse nb) = Inr (E, M)"
  shows "full_max_loop Recurse board valid (move # rest) ME BEST
           = full_max_loop Recurse board valid rest (max ME E) (if ME < E then Some move else BEST)"
  using assms by (simp add: running_max)

lemma full_min_loop_step:
  assumes "apply_move board move (- 1) = Inr (nb, i, move)"
    and "(if check_win nb (- 1) i move then Inr (NegInf, Some move) else Recurse nb) = Inr (E, M)"
  shows "full_min_loop Recurse board valid (move # rest) ME BEST
           = full_min_loop Recurse board valid rest (min ME E) (if E < ME then Some move else BEST)"
  using assms by (simp add: running_min)

lemma full_max_loop_total:
  assumes "\<And>nb. \<exists>E M. Recurse nb = Inr (E, M)"
    and "\<forall>c \<in> set ms. cell board 0 c = 0" and "valid \<noteq> []"
  shows "\<exists>V M. full_max_loop Recurse board valid ms ME BEST = Inr (V, M) \<and> ME \<le> V"
  using assms(2)
proof (induction ms arbitrary: ME BEST)
  case Nil
  then show ?case by (simp add: finish_Inr[OF assms(3)])
next
  case (Cons move rest)
  obtain nb i where am: "apply_move board move 1 = Inr (nb, i, move)"
    using valid_move_applies[of board move 1] Cons.prems by auto
  obtain E M where ev: "(if check_win nb 1 i move then Inr (PosInf, Some move) else Recurse nb) = Inr (E, M)"
    using assms(1)[of nb] by (cases "check_win nb 1 i move") auto
  have "\<exists>V M. full_max_loop Recurse board valid rest (max ME E)
                 (if ME < E then Some move else BEST) = Inr (V, M) \<and> max ME E \<le> V"
    by (rule Cons.IH) (use Cons.prems in simp)
  then show ?case unfolding full_max_loop_step[where Recurse=Recurse, OF am ev] by auto
qed

lemma full_min_loop_total:
  assumes "\<And>nb. \<exists>E M. Recurse nb = Inr (E, M)"
    and "\<forall>c \<in> set ms. cell board 0 c = 0" and "valid \<noteq> []"
  shows "\<exists>V M. full_min_loop Recurse board valid ms ME BEST = Inr (V, M) \<and> V \<le> ME"
  using assms(2)
proof (induction ms arbitrary: ME BEST)
  case Nil
  then show ?case by (simp add: finish_Inr[OF assms(3)])
next
  case (Cons move rest)
  obtain nb i where am: "apply_move board move (- 1) = Inr (nb, i, move)"
    using valid_move_applies[of board move "- 1"] Cons.prems by auto
  obtain E M where ev: "(if check_win nb (- 1) i move then Inr (NegInf, Some move) else Recurse nb) = Inr (E, M)"
    using assms(1)[of nb] by (cases "check_win nb (- 1) i move") auto
  have "\<exists>V M. full_min_loop Recurse board valid rest (min ME E)
                 (if E < ME then Some move else BEST) = Inr (V, M) \<and> V \<le> min ME E"
    by (rule Cons.IH) (use Cons.prems in simp)
  then show ?case unfolding full_min_loop_step[where Recurse=Recurse, OF am ev] by auto
qed

lemma full_total: "\<exists>V M. full self b d mx = Inr (V, M)"
proof (induction d arbitrary: b mx)
  case 0
  then show ?case using cutoff_total[of self b "valid_moves b"] by auto
next
  case (Suc d)
  show ?case
  proof (cases "valid_moves b = []")
    case True
    then show ?thesis using cutoff_total[of self b "valid_moves b"] by auto
  next
    case False
    show ?thesis
    proof (cases mx)
      case True
      have "\<exists>V M. full_max_loop (\<lambda>nb. full self nb d False) b
                     (valid_moves b) (valid_moves b) NegInf None = Inr (V, M) \<and> NegInf \<le> V"
        by (rule full_max_loop_total[OF Suc valid_moves_open False])
      then show ?thesis using True False by auto
    next
      case mn: False
      have "\<exists>V M. full_min_loop (\<lambda>nb. full self nb d True) b
                     (valid_moves b) (valid_moves b) PosInf None = Inr (V, M) \<and> V \<le> PosInf"
        by (rule full_min_loop_total[OF Suc valid_moves_open False])
      then show ?thesis using mn False by auto
    qed
  qed
qed

text \<open>Once the running extremum is the infinity of the side to move, a full loop changes nothing.\<close>

lemma full_max_loop_top:
  assumes "\<And>nb. \<exists>E M. Recurse nb = Inr (E, M)" and "\<forall>c \<in> set ms. cell board 0 c = 0"
  shows "full_max_loop Recurse board valid ms PosInf (Some m0) = Inr (PosInf, Some m0)"
  using assms(2)
proof (induction ms)
  case Nil
  then show ?case by (simp add: finish_def)
next
  case (Cons move rest)
  obtain nb i where am: "apply_move board move 1 = Inr (nb, i, move)"
    using valid_move_applies[of board move 1] Cons.prems by auto
  obtain E M where ev: "(if check_win nb 1 i move then Inr (PosInf, Some move) else Recurse nb) = Inr (E, M)"
    using assms(1)[of nb] by (cases "check_win nb 1 i move") auto
  show ?case unfolding full_max_loop_step[where Recurse=Recurse, OF am ev] using Cons by (simp add: max_def)
qed

lemma full_min_loop_bottom:
  assumes "\<And>nb. \<exists>E M. Recurse nb = Inr (E, M)" and "\<forall>c \<in> set ms. cell board 0 c = 0"
  shows "full_min_loop Recurse board valid ms NegInf (Some m0) = Inr (NegInf, Some m0)"
  using assms(2)
proof (induction ms)
  case Nil
  then show ?case by (simp add: finish_def)
next
  case (Cons move rest)
  obtain nb i where am: "apply_move board move (- 1) = Inr (nb, i, move)"
    using valid_move_applies[of board move "- 1"] Cons.prems by auto
  obtain E M where ev: "(if check_win nb (- 1) i move then Inr (NegInf, Some move) else Recurse nb) = Inr (E, M)"
    using assms(1)[of nb] by (cases "check_win nb (- 1) i move") auto
  show ?case unfolding full_min_loop_step[where Recurse=Recurse, OF am ev] using Cons by (simp add: min_def)
qed

text \<open>
  The invariant of the maximising loop.  \<open>a0\<close> is the \<open>alpha\<close> the node was called with;
  the pruned loop (state \<open>alpha\<close>, \<open>me\<close>, \<open>best\<close>) and the full loop (state \<open>ME\<close>,
  \<open>BEST\<close>) agree on the running maximum as far as the window can tell, and at the root
  window they agree on the move.
\<close>

lemma max_loop_window:
  assumes rel: "\<And>nb a b. a < b \<Longrightarrow> \<exists>e m E M. recurse nb a b = Inr (e, m) \<and> Recurse nb = Inr (E, M) \<and>
                   max a (min b e) = max a (min b E)"
    and "valid \<noteq> []"
    and "\<forall>c \<in> set ms. cell board 0 c = 0"
    and "alpha < beta" and "max a0 me = alpha" and "max a0 ME = alpha"
  shows "\<exists>v m V M. max_loop recurse board valid ms alpha beta me best = Inr (v, m) \<and>
           full_max_loop Recurse board valid ms ME BEST = Inr (V, M) \<and>
           max a0 (min beta v) = max a0 (min beta V) \<and>
           (a0 = NegInf \<and> beta = PosInf \<and> best = BEST \<longrightarrow> m = M)"
  using assms(3-6)
proof (induction ms arbitrary: alpha me ME best BEST)
  case Nil
  have "max a0 (min beta me) = max a0 (min beta ME)"
    using Nil.prems by (auto simp: max_def min_def split: if_splits)
  moreover have "a0 = NegInf \<Longrightarrow> me = ME" using Nil.prems by (simp add: max_def)
  ultimately show ?case by (auto simp: finish_Inr[OF assms(2)])
next
  case (Cons move rest)
  obtain nb i where am: "apply_move board move 1 = Inr (nb, i, move)"
    using valid_move_applies[of board move 1] Cons.prems(1) by auto
  have total: "\<exists>E M. Recurse nb = Inr (E, M)" for nb
    using rel[of NegInf PosInf nb] by auto
  have opn: "\<forall>c \<in> set rest. cell board 0 c = 0" using Cons.prems(1) by simp
  have MEtop: "ME \<noteq> PosInf" using Cons.prems(2,4) by (auto simp: max_def split: if_splits)
  show ?case
  proof (cases "check_win nb 1 i move")
    case True
    have ev: "(if check_win nb 1 i move then Inr (PosInf, Some move) else Recurse nb)
                = Inr (PosInf, Some move)" using True by simp
    have "full_max_loop Recurse board valid (move # rest) ME BEST = Inr (PosInf, Some move)"
      unfolding full_max_loop_step[where Recurse=Recurse, OF am ev] using MEtop full_max_loop_top[OF total opn]
      by (simp add: max_def)
    moreover have "max_loop recurse board valid (move # rest) alpha beta me best = Inr (PosInf, Some move)"
      using am True by simp
    ultimately show ?thesis by simp
  next
    case nowin: False
    obtain e m E M where rc: "recurse nb alpha beta = Inr (e, m)" and RC: "Recurse nb = Inr (E, M)"
      and win: "max alpha (min beta e) = max alpha (min beta E)"
      using rel[OF Cons.prems(2), of nb] by blast
    have ev: "(if check_win nb 1 i move then Inr (PosInf, Some move) else Recurse nb) = Inr (E, M)"
      using nowin RC by simp
    let ?me = "max me e" and ?ME = "max ME E"
    let ?best = "if me < e then Some move else best"
    let ?BEST = "if ME < E then Some move else BEST"
    have root: "me = ME \<and> me = alpha" if "a0 = NegInf" using that Cons.prems(3,4) by (simp add: max_def)
    show ?thesis
    proof (cases "beta \<le> max alpha e")
      case True
      have eb: "beta \<le> e" "beta \<le> E"
        using True win Cons.prems(2) by (auto simp: max_def min_def split: if_splits)
      have "\<exists>V M. full_max_loop Recurse board valid rest ?ME ?BEST = Inr (V, M) \<and> ?ME \<le> V"
        by (rule full_max_loop_total[OF total opn assms(2)])
      then obtain V M' where UL: "full_max_loop Recurse board valid rest ?ME ?BEST = Inr (V, M')"
        and VM: "?ME \<le> V" by blast
      have fin: "max_loop recurse board valid (move # rest) alpha beta me best
                   = Inr (?me, Some (case ?best of None \<Rightarrow> hd valid | Some m \<Rightarrow> m))"
        using am nowin rc True by (simp add: Let_def running_max finish_Inr[OF assms(2)])
      have UF: "full_max_loop Recurse board valid (move # rest) ME BEST = Inr (V, M')"
        unfolding full_max_loop_step[where Recurse=Recurse, OF am ev] by (rule UL)
      have "beta \<le> ?me" "beta \<le> V" using eb VM by (auto simp: max_def split: if_splits)
      then have weq: "max a0 (min beta ?me) = max a0 (min beta V)" by (simp add: min_def)
      have mv: "Some (case ?best of None \<Rightarrow> hd valid | Some m \<Rightarrow> m) = M'"
        if r: "a0 = NegInf" "beta = PosInf" "best = BEST"
      proof -
        have "e = PosInf" "E = PosInf" using eb r(2) by simp_all
        have "me \<noteq> PosInf" using root[OF r(1)] Cons.prems(2) r(2) by auto
        then have st: "?ME = PosInf" "?BEST = Some move" "?best = Some move" "?me = PosInf"
          using \<open>e = PosInf\<close> \<open>E = PosInf\<close> MEtop by (auto simp: max_def)
        have "full_max_loop Recurse board valid rest PosInf (Some move) = Inr (PosInf, Some move)"
          by (rule full_max_loop_top[OF total opn])
        then have "M' = Some move" using UL by (simp only: st) simp
        then show ?thesis by (simp only: st) simp
      qed
      show ?thesis using fin UF weq mv by auto
    next
      case nobreak: False
      have step: "max alpha E = max alpha e"
        using nobreak win Cons.prems(2) by (auto simp: max_def min_def split: if_splits)
      have 1: "max alpha e < beta" using nobreak by (simp only: not_le)
      have 2: "max a0 ?me = max alpha e" using Cons.prems(3) by (auto simp: max_def split: if_splits)
      have 3: "max a0 ?ME = max alpha e" using Cons.prems(4) step by (auto simp: max_def split: if_splits)
      have "\<exists>v m V M. max_loop recurse board valid rest (max alpha e) beta ?me ?best = Inr (v, m) \<and>
           full_max_loop Recurse board valid rest ?ME ?BEST = Inr (V, M) \<and>
           max a0 (min beta v) = max a0 (min beta V) \<and>
           (a0 = NegInf \<and> beta = PosInf \<and> ?best = ?BEST \<longrightarrow> m = M)"
        by (rule Cons.IH[OF opn 1 2 3])
      then obtain v m' V M' where L: "max_loop recurse board valid rest (max alpha e) beta ?me ?best = Inr (v, m')"
        and UL: "full_max_loop Recurse board valid rest ?ME ?BEST = Inr (V, M')"
        and weq: "max a0 (min beta v) = max a0 (min beta V)"
        and mv: "a0 = NegInf \<and> beta = PosInf \<and> ?best = ?BEST \<longrightarrow> m' = M'"
        by blast
      have same: "?best = ?BEST" if "a0 = NegInf" "best = BEST"
        using root[OF that(1)] step that(2) by (auto simp: max_def split: if_splits)
      have "max_loop recurse board valid (move # rest) alpha beta me best = Inr (v, m')"
        using am nowin rc nobreak L by (simp add: Let_def running_max)
      moreover have "full_max_loop Recurse board valid (move # rest) ME BEST = Inr (V, M')"
        unfolding full_max_loop_step[where Recurse=Recurse, OF am ev] by (rule UL)
      ultimately show ?thesis using weq mv same by auto
    qed
  qed
qed

lemma min_loop_window:
  assumes rel: "\<And>nb a b. a < b \<Longrightarrow> \<exists>e m E M. recurse nb a b = Inr (e, m) \<and> Recurse nb = Inr (E, M) \<and>
                   max a (min b e) = max a (min b E)"
    and "valid \<noteq> []"
    and "\<forall>c \<in> set ms. cell board 0 c = 0"
    and "alpha < beta" and "min b0 me = beta" and "min b0 ME = beta"
  shows "\<exists>v m V M. min_loop recurse board valid ms alpha beta me best = Inr (v, m) \<and>
           full_min_loop Recurse board valid ms ME BEST = Inr (V, M) \<and>
           max alpha (min b0 v) = max alpha (min b0 V) \<and>
           (alpha = NegInf \<and> b0 = PosInf \<and> best = BEST \<longrightarrow> m = M)"
  using assms(3-6)
proof (induction ms arbitrary: beta me ME best BEST)
  case Nil
  have "b0 = PosInf \<Longrightarrow> me = ME" using Nil.prems by (simp add: min_def)
  then show ?case using Nil.prems by (auto simp: finish_Inr[OF assms(2)])
next
  case (Cons move rest)
  obtain nb i where am: "apply_move board move (- 1) = Inr (nb, i, move)"
    using valid_move_applies[of board move "- 1"] Cons.prems(1) by auto
  have total: "\<exists>E M. Recurse nb = Inr (E, M)" for nb
    using rel[of NegInf PosInf nb] by auto
  have opn: "\<forall>c \<in> set rest. cell board 0 c = 0" using Cons.prems(1) by simp
  have MEbot: "ME \<noteq> NegInf" using Cons.prems(2,4) by (auto simp: min_def split: if_splits)
  show ?case
  proof (cases "check_win nb (- 1) i move")
    case True
    have ev: "(if check_win nb (- 1) i move then Inr (NegInf, Some move) else Recurse nb)
                = Inr (NegInf, Some move)" using True by simp
    have "full_min_loop Recurse board valid (move # rest) ME BEST = Inr (NegInf, Some move)"
      unfolding full_min_loop_step[where Recurse=Recurse, OF am ev] using MEbot full_min_loop_bottom[OF total opn]
      by (simp add: min_def)
    moreover have "min_loop recurse board valid (move # rest) alpha beta me best = Inr (NegInf, Some move)"
      using am True by simp
    ultimately show ?thesis by simp
  next
    case nowin: False
    obtain e m E M where rc: "recurse nb alpha beta = Inr (e, m)" and RC: "Recurse nb = Inr (E, M)"
      and win: "max alpha (min beta e) = max alpha (min beta E)"
      using rel[OF Cons.prems(2), of nb] by blast
    have ev: "(if check_win nb (- 1) i move then Inr (NegInf, Some move) else Recurse nb) = Inr (E, M)"
      using nowin RC by simp
    let ?me = "min me e" and ?ME = "min ME E"
    let ?best = "if e < me then Some move else best"
    let ?BEST = "if E < ME then Some move else BEST"
    have root: "me = ME \<and> me = beta" if "b0 = PosInf" using that Cons.prems(3,4) by (simp add: min_def)
    show ?thesis
    proof (cases "min beta e \<le> alpha")
      case True
      have eb: "e \<le> alpha" "E \<le> alpha"
        using True win Cons.prems(2) by (auto simp: max_def min_def split: if_splits)
      have "\<exists>V M. full_min_loop Recurse board valid rest ?ME ?BEST = Inr (V, M) \<and> V \<le> ?ME"
        by (rule full_min_loop_total[OF total opn assms(2)])
      then obtain V M' where UL: "full_min_loop Recurse board valid rest ?ME ?BEST = Inr (V, M')"
        and VM: "V \<le> ?ME" by blast
      have fin: "min_loop recurse board valid (move # rest) alpha beta me best
                   = Inr (?me, Some (case ?best of None \<Rightarrow> hd valid | Some m \<Rightarrow> m))"
        using am nowin rc True by (simp add: Let_def running_min finish_Inr[OF assms(2)])
      have UF: "full_min_loop Recurse board valid (move # rest) ME BEST = Inr (V, M')"
        unfolding full_min_loop_step[where Recurse=Recurse, OF am ev] by (rule UL)
      have "?me \<le> alpha" "V \<le> alpha" using eb VM by (auto simp: min_def split: if_splits)
      then have weq: "max alpha (min b0 ?me) = max alpha (min b0 V)"
        by (auto simp: max_def min_def split: if_splits)
      have mv: "Some (case ?best of None \<Rightarrow> hd valid | Some m \<Rightarrow> m) = M'"
        if r: "alpha = NegInf" "b0 = PosInf" "best = BEST"
      proof -
        have "e = NegInf" "E = NegInf" using eb r(1) by simp_all
        have "me \<noteq> NegInf" using root[OF r(2)] Cons.prems(2) r(1) by auto
        then have st: "?ME = NegInf" "?BEST = Some move" "?best = Some move" "?me = NegInf"
          using \<open>e = NegInf\<close> \<open>E = NegInf\<close> MEbot by (auto simp: min_def)
        have "full_min_loop Recurse board valid rest NegInf (Some move) = Inr (NegInf, Some move)"
          by (rule full_min_loop_bottom[OF total opn])
        then have "M' = Some move" using UL by (simp only: st) simp
        then show ?thesis by (simp only: st) simp
      qed
      show ?thesis using fin UF weq mv by auto
    next
      case nobreak: False
      have step: "min beta E = min beta e"
        using nobreak win Cons.prems(2) by (auto simp: max_def min_def split: if_splits)
      have 1: "alpha < min beta e" using nobreak by (simp only: not_le)
      have 2: "min b0 ?me = min beta e" using Cons.prems(3) by (auto simp: min_def split: if_splits)
      have 3: "min b0 ?ME = min beta e" using Cons.prems(4) step by (auto simp: min_def split: if_splits)
      have "\<exists>v m V M. min_loop recurse board valid rest alpha (min beta e) ?me ?best = Inr (v, m) \<and>
           full_min_loop Recurse board valid rest ?ME ?BEST = Inr (V, M) \<and>
           max alpha (min b0 v) = max alpha (min b0 V) \<and>
           (alpha = NegInf \<and> b0 = PosInf \<and> ?best = ?BEST \<longrightarrow> m = M)"
        by (rule Cons.IH[OF opn 1 2 3])
      then obtain v m' V M' where L: "min_loop recurse board valid rest alpha (min beta e) ?me ?best = Inr (v, m')"
        and UL: "full_min_loop Recurse board valid rest ?ME ?BEST = Inr (V, M')"
        and weq: "max alpha (min b0 v) = max alpha (min b0 V)"
        and mv: "alpha = NegInf \<and> b0 = PosInf \<and> ?best = ?BEST \<longrightarrow> m' = M'"
        by blast
      have same: "?best = ?BEST" if "b0 = PosInf" "best = BEST"
        using root[OF that(1)] step that(2) by (auto simp: min_def split: if_splits)
      have "min_loop recurse board valid (move # rest) alpha beta me best = Inr (v, m')"
        using am nowin rc nobreak L by (simp add: Let_def running_min)
      moreover have "full_min_loop Recurse board valid (move # rest) ME BEST = Inr (V, M')"
        unfolding full_min_loop_step[where Recurse=Recurse, OF am ev] by (rule UL)
      ultimately show ?thesis using weq mv same by auto
    qed
  qed
qed

text \<open>
  Every node: inside the window the pruned score is the full score, outside the window
  both lie on the same side of it; over the full window the two results are equal.
\<close>

lemma minimax_window:
  "alpha < beta \<Longrightarrow>
   \<exists>v m V M. minimax self b d mx alpha beta = Inr (v, m) \<and> full self b d mx = Inr (V, M) \<and>
     max alpha (min beta v) = max alpha (min beta V) \<and>
     (alpha = NegInf \<and> beta = PosInf \<longrightarrow> m = M)"
proof (induction d arbitrary: b mx alpha beta)
  case 0
  then show ?case using cutoff_total[of self b "valid_moves b"] by auto
next
  case (Suc d)
  have rel: "\<And>mx' nb a b'. a < b' \<Longrightarrow> \<exists>e m E M. minimax self nb d mx' a b' = Inr (e, m) \<and>
                full self nb d mx' = Inr (E, M) \<and> max a (min b' e) = max a (min b' E)"
    using Suc.IH by blast
  show ?case
  proof (cases "valid_moves b = []")
    case True
    then show ?thesis using cutoff_total[of self b "valid_moves b"] by auto
  next
    case False
    show ?thesis
    proof (cases mx)
      case True
      have "\<exists>v m V M. max_loop (\<lambda>nb. minimax self nb d False) b (valid_moves b) (valid_moves b)
                 alpha beta NegInf None = Inr (v, m) \<and>
               full_max_loop (\<lambda>nb. full self nb d False) b (valid_moves b)
                 (valid_moves b) NegInf None = Inr (V, M) \<and>
               max alpha (min beta v) = max alpha (min beta V) \<and>
               (alpha = NegInf \<and> beta = PosInf \<and> (None::nat option) = None \<longrightarrow> m = M)"
        by (rule max_loop_window[OF rel False valid_moves_open Suc.prems])
           (simp_all add: max_def)
      then show ?thesis using True False by auto
    next
      case mn: False
      have "\<exists>v m V M. min_loop (\<lambda>nb. minimax self nb d True) b (valid_moves b) (valid_moves b)
                 alpha beta PosInf None = Inr (v, m) \<and>
               full_min_loop (\<lambda>nb. full self nb d True) b (valid_moves b)
                 (valid_moves b) PosInf None = Inr (V, M) \<and>
               max alpha (min beta v) = max alpha (min beta V) \<and>
               (alpha = NegInf \<and> beta = PosInf \<and> (None::nat option) = None \<longrightarrow> m = M)"
        by (rule min_loop_window[OF rel False valid_moves_open Suc.prems])
           (simp_all add: min_def)
      then show ?thesis using mn False by auto
    qed
  qed
qed

lemma minimax_is_full:
  "minimax self b d mx NegInf PosInf = full self b d mx"
proof -
  obtain v m V M where "minimax self b d mx NegInf PosInf = Inr (v, m)" "full self b d mx = Inr (V, M)"
    "max NegInf (min PosInf v) = max NegInf (min PosInf V)" "m = M"
    using minimax_window[of NegInf PosInf self b d mx] by auto
  then show ?thesis by (simp add: max_def min_def)
qed

text \<open>
  Claim C1.  For every board, every depth, either evaluator and either side to move, the
  search over the full window returns exactly the result, score and move, of the full
  minimax over the same game tree: same legal moves in the same order, same evaluator at
  the cutoff, no \<open>alpha\<close>, no \<open>beta\<close>, no cutoff and no early return from a loop (a
  drop that wins is a leaf that scores the infinity of its side).  Pruning and the early
  return change the work done, never the result.
\<close>
theorem pruning_keeps_result:
  "minimax self board depth maximizing NegInf PosInf = full self board depth maximizing"
  by (rule minimax_is_full)

text \<open>An instance two plies deep, evaluated on both sides.\<close>

lemma pruning_example:
  "minimax (simple_player 2) open_three 2 True NegInf PosInf = Inr (PosInf, Some 1) \<and>
   full (simple_player 2) open_three 2 True = Inr (PosInf, Some 1)"
  by code_simp

section \<open>The value of a move, and the lowest column among the best\<close>

lemma full_max_loop_best:
  assumes "\<forall>c \<in> set ms. \<exists>nb i M. apply_move board c 1 = Inr (nb, i, c) \<and>
             (if check_win nb 1 i c then Inr (PosInf, Some c) else Recurse nb) = Inr (val c, M)"
    and "sorted ms" and "valid \<noteq> []"
  shows "\<exists>V M. full_max_loop Recurse board valid ms ME BEST = Inr (V, Some M) \<and>
           ME \<le> V \<and> (\<forall>c \<in> set ms. val c \<le> V) \<and>
           (if \<exists>c \<in> set ms. ME < val c
            then M \<in> set ms \<and> val M = V \<and> (\<forall>c \<in> set ms. val c = V \<longrightarrow> M \<le> c)
            else V = ME \<and> M = (case BEST of None \<Rightarrow> hd valid | Some m \<Rightarrow> m))"
  using assms(1,2)
proof (induction ms arbitrary: ME BEST)
  case Nil
  then show ?case by (simp add: finish_Inr[OF assms(3)])
next
  case (Cons move rest)
  obtain nb i M0 where am: "apply_move board move 1 = Inr (nb, i, move)"
    and ev: "(if check_win nb 1 i move then Inr (PosInf, Some move) else Recurse nb) = Inr (val move, M0)"
    using Cons.prems(1) by auto
  let ?ME = "max ME (val move)"
  let ?BEST = "if ME < val move then Some move else BEST"
  have low: "\<forall>c \<in> set rest. move \<le> c" and srt: "sorted rest" using Cons.prems(2) by auto
  have "\<exists>V M. full_max_loop Recurse board valid rest ?ME ?BEST = Inr (V, Some M) \<and>
           ?ME \<le> V \<and> (\<forall>c \<in> set rest. val c \<le> V) \<and>
           (if \<exists>c \<in> set rest. ?ME < val c
            then M \<in> set rest \<and> val M = V \<and> (\<forall>c \<in> set rest. val c = V \<longrightarrow> M \<le> c)
            else V = ?ME \<and> M = (case ?BEST of None \<Rightarrow> hd valid | Some m \<Rightarrow> m))"
    by (rule Cons.IH[OF _ srt]) (use Cons.prems(1) in simp)
  then obtain V M where UL: "full_max_loop Recurse board valid rest ?ME ?BEST = Inr (V, Some M)"
    and ge: "?ME \<le> V" and all: "\<forall>c \<in> set rest. val c \<le> V"
    and pick: "if \<exists>c \<in> set rest. ?ME < val c
            then M \<in> set rest \<and> val M = V \<and> (\<forall>c \<in> set rest. val c = V \<longrightarrow> M \<le> c)
            else V = ?ME \<and> M = (case ?BEST of None \<Rightarrow> hd valid | Some m \<Rightarrow> m)"
    by blast
  have UF: "full_max_loop Recurse board valid (move # rest) ME BEST = Inr (V, Some M)"
    unfolding full_max_loop_step[where Recurse=Recurse, OF am ev] by (rule UL)
  have g1: "ME \<le> V" "val move \<le> V" using ge by simp_all
  have sel: "if \<exists>c \<in> set (move # rest). ME < val c
            then M \<in> set (move # rest) \<and> val M = V \<and> (\<forall>c \<in> set (move # rest). val c = V \<longrightarrow> M \<le> c)
            else V = ME \<and> M = (case BEST of None \<Rightarrow> hd valid | Some m \<Rightarrow> m)"
  proof (cases "\<exists>c \<in> set rest. ?ME < val c")
    case True
    then have "M \<in> set rest" "val M = V" "\<forall>c \<in> set rest. val c = V \<longrightarrow> M \<le> c"
      using pick by simp_all
    moreover from True obtain c where "c \<in> set rest" "?ME < val c" by blast
    moreover have "val c \<le> V" using all \<open>c \<in> set rest\<close> by simp
    ultimately show ?thesis by (auto simp: max_def split: if_splits)
  next
    case False
    then have V: "V = ?ME" and M: "M = (case ?BEST of None \<Rightarrow> hd valid | Some m \<Rightarrow> m)"
      using pick by simp_all
    show ?thesis
    proof (cases "ME < val move")
      case True
      then show ?thesis using V M low by (auto simp: max_def)
    next
      case nolift: False
      then have "?ME = ME" by (auto simp: max_def)
      then show ?thesis using V M False nolift by auto
    qed
  qed
  show ?case using UF g1 all sel by simp
qed

lemma full_min_loop_best:
  assumes "\<forall>c \<in> set ms. \<exists>nb i M. apply_move board c (- 1) = Inr (nb, i, c) \<and>
             (if check_win nb (- 1) i c then Inr (NegInf, Some c) else Recurse nb) = Inr (val c, M)"
    and "sorted ms" and "valid \<noteq> []"
  shows "\<exists>V M. full_min_loop Recurse board valid ms ME BEST = Inr (V, Some M) \<and>
           V \<le> ME \<and> (\<forall>c \<in> set ms. V \<le> val c) \<and>
           (if \<exists>c \<in> set ms. val c < ME
            then M \<in> set ms \<and> val M = V \<and> (\<forall>c \<in> set ms. val c = V \<longrightarrow> M \<le> c)
            else V = ME \<and> M = (case BEST of None \<Rightarrow> hd valid | Some m \<Rightarrow> m))"
  using assms(1,2)
proof (induction ms arbitrary: ME BEST)
  case Nil
  then show ?case by (simp add: finish_Inr[OF assms(3)])
next
  case (Cons move rest)
  obtain nb i M0 where am: "apply_move board move (- 1) = Inr (nb, i, move)"
    and ev: "(if check_win nb (- 1) i move then Inr (NegInf, Some move) else Recurse nb) = Inr (val move, M0)"
    using Cons.prems(1) by auto
  let ?ME = "min ME (val move)"
  let ?BEST = "if val move < ME then Some move else BEST"
  have low: "\<forall>c \<in> set rest. move \<le> c" and srt: "sorted rest" using Cons.prems(2) by auto
  have "\<exists>V M. full_min_loop Recurse board valid rest ?ME ?BEST = Inr (V, Some M) \<and>
           V \<le> ?ME \<and> (\<forall>c \<in> set rest. V \<le> val c) \<and>
           (if \<exists>c \<in> set rest. val c < ?ME
            then M \<in> set rest \<and> val M = V \<and> (\<forall>c \<in> set rest. val c = V \<longrightarrow> M \<le> c)
            else V = ?ME \<and> M = (case ?BEST of None \<Rightarrow> hd valid | Some m \<Rightarrow> m))"
    by (rule Cons.IH[OF _ srt]) (use Cons.prems(1) in simp)
  then obtain V M where UL: "full_min_loop Recurse board valid rest ?ME ?BEST = Inr (V, Some M)"
    and ge: "V \<le> ?ME" and all: "\<forall>c \<in> set rest. V \<le> val c"
    and pick: "if \<exists>c \<in> set rest. val c < ?ME
            then M \<in> set rest \<and> val M = V \<and> (\<forall>c \<in> set rest. val c = V \<longrightarrow> M \<le> c)
            else V = ?ME \<and> M = (case ?BEST of None \<Rightarrow> hd valid | Some m \<Rightarrow> m)"
    by blast
  have UF: "full_min_loop Recurse board valid (move # rest) ME BEST = Inr (V, Some M)"
    unfolding full_min_loop_step[where Recurse=Recurse, OF am ev] by (rule UL)
  have g1: "V \<le> ME" "V \<le> val move" using ge by simp_all
  have sel: "if \<exists>c \<in> set (move # rest). val c < ME
            then M \<in> set (move # rest) \<and> val M = V \<and> (\<forall>c \<in> set (move # rest). val c = V \<longrightarrow> M \<le> c)
            else V = ME \<and> M = (case BEST of None \<Rightarrow> hd valid | Some m \<Rightarrow> m)"
  proof (cases "\<exists>c \<in> set rest. val c < ?ME")
    case True
    then have "M \<in> set rest" "val M = V" "\<forall>c \<in> set rest. val c = V \<longrightarrow> M \<le> c"
      using pick by simp_all
    moreover from True obtain c where "c \<in> set rest" "val c < ?ME" by blast
    moreover have "V \<le> val c" using all \<open>c \<in> set rest\<close> by simp
    ultimately show ?thesis by (auto simp: min_def split: if_splits)
  next
    case False
    then have V: "V = ?ME" and M: "M = (case ?BEST of None \<Rightarrow> hd valid | Some m \<Rightarrow> m)"
      using pick by simp_all
    show ?thesis
    proof (cases "val move < ME")
      case True
      then show ?thesis using V M low by (auto simp: min_def)
    next
      case nolift: False
      then have "?ME = ME" by (auto simp: min_def)
      then show ?thesis using V M False nolift by auto
    qed
  qed
  show ?case using UF g1 all sel by simp
qed

lemma move_value_max:
  assumes "cell board 0 c = 0"
  shows "\<exists>nb i e M. apply_move board c 1 = Inr (nb, i, c) \<and>
           (if check_win nb 1 i c then Inr (PosInf, Some c) else full self nb d False) = Inr (e, M) \<and>
           move_value self board d 1 c = Some e"
proof -
  obtain nb i where am: "apply_move board c 1 = Inr (nb, i, c)"
    using valid_move_applies[OF assms] by blast
  obtain e M where "(if check_win nb 1 i c then Inr (PosInf, Some c) else full self nb d False) = Inr (e, M)"
    using full_total[of self nb d False] by (cases "check_win nb 1 i c") auto
  then show ?thesis using am by (auto simp: move_value_def)
qed

lemma move_value_min:
  assumes "cell board 0 c = 0"
  shows "\<exists>nb i e M. apply_move board c (- 1) = Inr (nb, i, c) \<and>
           (if check_win nb (- 1) i c then Inr (NegInf, Some c) else full self nb d True) = Inr (e, M) \<and>
           move_value self board d (- 1) c = Some e"
proof -
  obtain nb i where am: "apply_move board c (- 1) = Inr (nb, i, c)"
    using valid_move_applies[OF assms] by blast
  obtain e M where "(if check_win nb (- 1) i c then Inr (NegInf, Some c) else full self nb d True) = Inr (e, M)"
    using full_total[of self nb d True] by (cases "check_win nb (- 1) i c") auto
  then show ?thesis using am by (auto simp: move_value_def)
qed

lemma hd_sorted_least: "sorted ms \<Longrightarrow> c \<in> set ms \<Longrightarrow> hd ms \<le> (c::nat)"
  by (cases ms) auto

lemma root_max_best:
  assumes "valid_moves board \<noteq> []"
  shows "\<exists>v m. minimax self board (Suc d) True NegInf PosInf = Inr (v, Some m) \<and>
           m \<in> set (valid_moves board) \<and> move_value self board d 1 m = Some v \<and>
           (\<forall>c \<in> set (valid_moves board). \<exists>e. move_value self board d 1 c = Some e \<and>
              e \<le> v \<and> (e = v \<longrightarrow> m \<le> c))"
proof -
  define val where "val c = the (move_value self board d 1 c)" for c
  let ?ms = "valid_moves board"
  have cv: "\<exists>e. move_value self board d 1 c = Some e \<and> val c = e" if "c \<in> set ?ms" for c
    using move_value_max[of board c self d] that by (auto simp: val_def valid_moves_iff)
  have kids: "\<forall>c \<in> set ?ms. \<exists>nb i M. apply_move board c 1 = Inr (nb, i, c) \<and>
             (if check_win nb 1 i c then Inr (PosInf, Some c) else full self nb d False) = Inr (val c, M)"
  proof
    fix c assume c: "c \<in> set ?ms"
    then obtain nb i e M where "apply_move board c 1 = Inr (nb, i, c)"
      "(if check_win nb 1 i c then Inr (PosInf, Some c) else full self nb d False) = Inr (e, M)"
      "move_value self board d 1 c = Some e"
      using move_value_max[of board c self d] by (auto simp: valid_moves_iff)
    then show "\<exists>nb i M. apply_move board c 1 = Inr (nb, i, c) \<and>
             (if check_win nb 1 i c then Inr (PosInf, Some c) else full self nb d False) = Inr (val c, M)"
      by (auto simp: val_def)
  qed
  have srt: "sorted ?ms" using valid_moves_sorted by simp
  have "\<exists>V M. full_max_loop (\<lambda>nb. full self nb d False) board ?ms ?ms NegInf None = Inr (V, Some M) \<and>
           NegInf \<le> V \<and> (\<forall>c \<in> set ?ms. val c \<le> V) \<and>
           (if \<exists>c \<in> set ?ms. NegInf < val c
            then M \<in> set ?ms \<and> val M = V \<and> (\<forall>c \<in> set ?ms. val c = V \<longrightarrow> M \<le> c)
            else V = NegInf \<and> M = (case (None::nat option) of None \<Rightarrow> hd ?ms | Some m \<Rightarrow> m))"
    by (rule full_max_loop_best[OF kids srt assms])
  then obtain V M where U: "full self board (Suc d) True = Inr (V, Some M)"
    and all: "\<forall>c \<in> set ?ms. val c \<le> V"
    and pick: "if \<exists>c \<in> set ?ms. NegInf < val c
            then M \<in> set ?ms \<and> val M = V \<and> (\<forall>c \<in> set ?ms. val c = V \<longrightarrow> M \<le> c)
            else V = NegInf \<and> M = hd ?ms"
    using assms by auto
  have best: "M \<in> set ?ms \<and> val M = V \<and> (\<forall>c \<in> set ?ms. val c = V \<longrightarrow> M \<le> c)"
  proof (cases "\<exists>c \<in> set ?ms. NegInf < val c")
    case True
    then show ?thesis using pick by simp
  next
    case False
    then have "V = NegInf" "M = hd ?ms" "\<forall>c \<in> set ?ms. val c = NegInf"
      using pick by auto
    then show ?thesis using hd_sorted_least[OF srt] assms by auto
  qed
  have "minimax self board (Suc d) True NegInf PosInf = Inr (V, Some M)"
    using U by (simp only: minimax_is_full)
  then show ?thesis using best all cv by (auto simp del: minimax.simps)
qed

lemma root_min_best:
  assumes "valid_moves board \<noteq> []"
  shows "\<exists>v m. minimax self board (Suc d) False NegInf PosInf = Inr (v, Some m) \<and>
           m \<in> set (valid_moves board) \<and> move_value self board d (- 1) m = Some v \<and>
           (\<forall>c \<in> set (valid_moves board). \<exists>e. move_value self board d (- 1) c = Some e \<and>
              v \<le> e \<and> (e = v \<longrightarrow> m \<le> c))"
proof -
  define val where "val c = the (move_value self board d (- 1) c)" for c
  let ?ms = "valid_moves board"
  have cv: "\<exists>e. move_value self board d (- 1) c = Some e \<and> val c = e" if "c \<in> set ?ms" for c
    using move_value_min[of board c self d] that by (auto simp: val_def valid_moves_iff)
  have kids: "\<forall>c \<in> set ?ms. \<exists>nb i M. apply_move board c (- 1) = Inr (nb, i, c) \<and>
             (if check_win nb (- 1) i c then Inr (NegInf, Some c) else full self nb d True) = Inr (val c, M)"
  proof
    fix c assume c: "c \<in> set ?ms"
    then obtain nb i e M where "apply_move board c (- 1) = Inr (nb, i, c)"
      "(if check_win nb (- 1) i c then Inr (NegInf, Some c) else full self nb d True) = Inr (e, M)"
      "move_value self board d (- 1) c = Some e"
      using move_value_min[of board c self d] by (auto simp: valid_moves_iff)
    then show "\<exists>nb i M. apply_move board c (- 1) = Inr (nb, i, c) \<and>
             (if check_win nb (- 1) i c then Inr (NegInf, Some c) else full self nb d True) = Inr (val c, M)"
      by (auto simp: val_def)
  qed
  have srt: "sorted ?ms" using valid_moves_sorted by simp
  have "\<exists>V M. full_min_loop (\<lambda>nb. full self nb d True) board ?ms ?ms PosInf None = Inr (V, Some M) \<and>
           V \<le> PosInf \<and> (\<forall>c \<in> set ?ms. V \<le> val c) \<and>
           (if \<exists>c \<in> set ?ms. val c < PosInf
            then M \<in> set ?ms \<and> val M = V \<and> (\<forall>c \<in> set ?ms. val c = V \<longrightarrow> M \<le> c)
            else V = PosInf \<and> M = (case (None::nat option) of None \<Rightarrow> hd ?ms | Some m \<Rightarrow> m))"
    by (rule full_min_loop_best[OF kids srt assms])
  then obtain V M where U: "full self board (Suc d) False = Inr (V, Some M)"
    and all: "\<forall>c \<in> set ?ms. V \<le> val c"
    and pick: "if \<exists>c \<in> set ?ms. val c < PosInf
            then M \<in> set ?ms \<and> val M = V \<and> (\<forall>c \<in> set ?ms. val c = V \<longrightarrow> M \<le> c)
            else V = PosInf \<and> M = hd ?ms"
    using assms by auto
  have best: "M \<in> set ?ms \<and> val M = V \<and> (\<forall>c \<in> set ?ms. val c = V \<longrightarrow> M \<le> c)"
  proof (cases "\<exists>c \<in> set ?ms. val c < PosInf")
    case True
    then show ?thesis using pick by simp
  next
    case False
    then have "V = PosInf" "M = hd ?ms" "\<forall>c \<in> set ?ms. val c = PosInf"
      using pick by auto
    then show ?thesis using hd_sorted_least[OF srt] assms by auto
  qed
  have "minimax self board (Suc d) False NegInf PosInf = Inr (V, Some M)"
    using U by (simp only: minimax_is_full)
  then show ?thesis using best all cv by (auto simp del: minimax.simps)
qed

text \<open>
  Claim C7.  The legal moves are the columns below 7 with an empty top cell, in
  ascending order without repetition.  On every board with a legal move and at every
  depth of at least 1, the search over the full window returns the best value among the
  legal moves (the greatest for the maximising side, the least for the minimising side)
  and, among the legal moves of that value, the lowest column: a later move of equal or
  worse value never replaces the best move.
\<close>
theorem lowest_best_column:
  assumes "valid_moves board \<noteq> []"
  shows "sorted (valid_moves board) \<and> distinct (valid_moves board) \<and>
         set (valid_moves board) = {c. c < 7 \<and> cell board 0 c = 0} \<and>
         (\<exists>v m. minimax self board (Suc d) True NegInf PosInf = Inr (v, Some m) \<and>
            m \<in> set (valid_moves board) \<and> move_value self board d 1 m = Some v \<and>
            (\<forall>c \<in> set (valid_moves board). \<exists>e. move_value self board d 1 c = Some e \<and>
               e \<le> v \<and> (e = v \<longrightarrow> m \<le> c))) \<and>
         (\<exists>v m. minimax self board (Suc d) False NegInf PosInf = Inr (v, Some m) \<and>
            m \<in> set (valid_moves board) \<and> move_value self board d (- 1) m = Some v \<and>
            (\<forall>c \<in> set (valid_moves board). \<exists>e. move_value self board d (- 1) c = Some e \<and>
               v \<le> e \<and> (e = v \<longrightarrow> m \<le> c)))"
proof -
  have "set (valid_moves board) = {c. c < 7 \<and> cell board 0 c = 0}"
    using valid_moves_iff[of _ board] by blast
  then show ?thesis
    using root_max_best[OF assms, of self d] root_min_best[OF assms, of self d]
      valid_moves_sorted[of board]
    by (simp del: minimax.simps)
qed

lemma move_value_open_three: "move_value (simple_player 1) open_three 0 1 5 = Some PosInf"
  by code_simp

theorem lowest_best_column_witness:
  "\<exists>v m. minimax (simple_player 1) open_three (Suc 0) True NegInf PosInf = Inr (v, Some m) \<and>
         m \<in> set (valid_moves open_three) \<and>
         move_value (simple_player 1) open_three 0 1 m = Some v \<and>
         move_value (simple_player 1) open_three 0 1 5 = Some v \<and> m \<le> 5"
proof -
  have ne: "valid_moves open_three \<noteq> []" by (simp add: valid_moves_open_three)
  obtain v m where r: "minimax (simple_player 1) open_three (Suc 0) True NegInf PosInf = Inr (v, Some m)"
    and m: "m \<in> set (valid_moves open_three)" "move_value (simple_player 1) open_three 0 1 m = Some v"
    and all: "\<forall>c \<in> set (valid_moves open_three). \<exists>e. move_value (simple_player 1) open_three 0 1 c = Some e \<and>
               e \<le> v \<and> (e = v \<longrightarrow> m \<le> c)"
    using lowest_best_column[OF ne, of "simple_player 1" 0] by blast
  have "5 \<in> set (valid_moves open_three)" by (simp add: valid_moves_open_three)
  then have "PosInf \<le> v \<and> (PosInf = v \<longrightarrow> m \<le> 5)"
    using all move_value_open_three by fastforce
  then have "v = PosInf" "m \<le> 5" by auto
  then show ?thesis using r m move_value_open_three by (auto simp del: minimax.simps)
qed

section \<open>A move that wins at once\<close>

lemma finish_score: "finish v best valid = Inr (v', m) \<Longrightarrow> v' = v"
  by (auto simp: finish_def split: option.splits list.splits)

text \<open>One ply above the cutoff a minimising node never scores \<open>PosInf\<close>, a maximising node never \<open>NegInf\<close>.\<close>

lemma min_loop_not_top:
  assumes "\<And>nb a b e m. recurse nb a b = Inr (e, m) \<Longrightarrow> e \<noteq> PosInf"
    and "ms \<noteq> [] \<or> me \<noteq> PosInf"
    and "min_loop recurse board valid ms alpha beta me best = Inr (v, m)"
  shows "v \<noteq> PosInf"
  using assms(2,3)
proof (induction ms arbitrary: beta me best)
  case Nil
  then show ?case using finish_score by fastforce
next
  case (Cons move rest)
  show ?case
  proof (cases "apply_move board move (- 1)")
    case (Inl err)
    then show ?thesis using Cons.prems(2) by simp
  next
    case (Inr t)
    then obtain nb i c where am: "apply_move board move (- 1) = Inr (nb, i, c)" by (cases t) auto
    show ?thesis
    proof (cases "check_win nb (- 1) i c")
      case True
      then show ?thesis using am Cons.prems(2) by auto
    next
      case nowin: False
      show ?thesis
      proof (cases "recurse nb alpha beta")
        case (Inl err)
        then show ?thesis using am nowin Cons.prems(2) by simp
      next
        case (Inr r)
        then obtain e m0 where rc: "recurse nb alpha beta = Inr (e, m0)" by (cases r) auto
        have e: "e \<noteq> PosInf" using assms(1)[OF rc] .
        then have me: "min me e \<noteq> PosInf" by (auto simp: min_def)
        show ?thesis
        proof (cases "min beta e \<le> alpha")
          case True
          then have "finish (min me e) (if e < me then Some move else best) valid = Inr (v, m)"
            using am nowin rc Cons.prems(2) by (simp add: Let_def running_min)
          then show ?thesis using finish_score me by fastforce
        next
          case False
          then have "min_loop recurse board valid rest alpha (min beta e) (min me e)
                       (if e < me then Some move else best) = Inr (v, m)"
            using am nowin rc Cons.prems(2) by (simp add: Let_def running_min)
          then show ?thesis using Cons.IH me by blast
        qed
      qed
    qed
  qed
qed

lemma max_loop_not_bottom:
  assumes "\<And>nb a b e m. recurse nb a b = Inr (e, m) \<Longrightarrow> e \<noteq> NegInf"
    and "ms \<noteq> [] \<or> me \<noteq> NegInf"
    and "max_loop recurse board valid ms alpha beta me best = Inr (v, m)"
  shows "v \<noteq> NegInf"
  using assms(2,3)
proof (induction ms arbitrary: alpha me best)
  case Nil
  then show ?case using finish_score by fastforce
next
  case (Cons move rest)
  show ?case
  proof (cases "apply_move board move 1")
    case (Inl err)
    then show ?thesis using Cons.prems(2) by simp
  next
    case (Inr t)
    then obtain nb i c where am: "apply_move board move 1 = Inr (nb, i, c)" by (cases t) auto
    show ?thesis
    proof (cases "check_win nb 1 i c")
      case True
      then show ?thesis using am Cons.prems(2) by auto
    next
      case nowin: False
      show ?thesis
      proof (cases "recurse nb alpha beta")
        case (Inl err)
        then show ?thesis using am nowin Cons.prems(2) by simp
      next
        case (Inr r)
        then obtain e m0 where rc: "recurse nb alpha beta = Inr (e, m0)" by (cases r) auto
        have e: "e \<noteq> NegInf" using assms(1)[OF rc] .
        then have me: "max me e \<noteq> NegInf" by (auto simp: max_def)
        show ?thesis
        proof (cases "beta \<le> max alpha e")
          case True
          then have "finish (max me e) (if me < e then Some move else best) valid = Inr (v, m)"
            using am nowin rc Cons.prems(2) by (simp add: Let_def running_max)
          then show ?thesis using finish_score me by fastforce
        next
          case False
          then have "max_loop recurse board valid rest (max alpha e) beta (max me e)
                       (if me < e then Some move else best) = Inr (v, m)"
            using am nowin rc Cons.prems(2) by (simp add: Let_def running_max)
          then show ?thesis using Cons.IH me by blast
        qed
      qed
    qed
  qed
qed

lemma cutoff_finite: "cutoff self b valid = Inr (e, m) \<Longrightarrow> e \<noteq> PosInf \<and> e \<noteq> NegInf"
  using cutoff_total[of self b valid] by auto

lemma shallow_min_not_top:
  assumes "d \<le> 1" and "minimax self b d False alpha beta = Inr (e, m)"
  shows "e \<noteq> PosInf"
proof (cases "d = 0 \<or> valid_moves b = []")
  case True
  then have "minimax self b d False alpha beta = cutoff self b (valid_moves b)" by (cases d) auto
  then show ?thesis using assms(2) cutoff_finite by metis
next
  case False
  then have d: "d = Suc 0" and ne: "valid_moves b \<noteq> []" using assms(1) by auto
  have "min_loop (\<lambda>nb. minimax self nb 0 True) b (valid_moves b) (valid_moves b) alpha beta PosInf None
          = Inr (e, m)"
    using assms(2) d ne by simp
  then show ?thesis
    by (rule min_loop_not_top[rotated 2]) (use ne cutoff_finite in auto)
qed

lemma shallow_max_not_bottom:
  assumes "d \<le> 1" and "minimax self b d True alpha beta = Inr (e, m)"
  shows "e \<noteq> NegInf"
proof (cases "d = 0 \<or> valid_moves b = []")
  case True
  then have "minimax self b d True alpha beta = cutoff self b (valid_moves b)" by (cases d) auto
  then show ?thesis using assms(2) cutoff_finite by metis
next
  case False
  then have d: "d = Suc 0" and ne: "valid_moves b \<noteq> []" using assms(1) by auto
  have "max_loop (\<lambda>nb. minimax self nb 0 False) b (valid_moves b) (valid_moves b) alpha beta NegInf None
          = Inr (e, m)"
    using assms(2) d ne by simp
  then show ?thesis
    by (rule max_loop_not_bottom[rotated 2]) (use ne cutoff_finite in auto)
qed

lemma immediate_win_value:
  assumes "c \<in> set (valid_moves board)" and "immediate_win board c p" and "p = 1 \<or> p = - 1"
  shows "move_value self board d p c = Some (if p = 1 then PosInf else NegInf)"
proof -
  obtain nb i where am: "apply_move board c p = Inr (nb, i, c)"
    using valid_move_applies[of board c p] assms(1) by (auto simp: valid_moves_iff)
  then have "check_win nb p i c" using assms(2) immediate_win_Inr[OF am] by simp
  then show ?thesis using am by (simp add: move_value_def)
qed

lemma shallow_value_max:
  assumes "d \<le> 1" and "move_value self board d 1 c = Some PosInf"
  shows "immediate_win board c 1"
proof (cases "apply_move board c 1")
  case (Inl e)
  then show ?thesis using assms(2) by (simp add: move_value_def)
next
  case (Inr t)
  then obtain nb i c' where am: "apply_move board c 1 = Inr (nb, i, c')" by (cases t) auto
  show ?thesis
  proof (rule ccontr)
    assume "\<not> immediate_win board c 1"
    then have nw: "\<not> check_win nb 1 i c'" using immediate_win_Inr[OF am] by simp
    obtain V M where f: "full self nb d False = Inr (V, M)" using full_total by blast
    then have "V = PosInf" using assms(2) am nw by (simp add: move_value_def)
    then have "minimax self nb d False NegInf PosInf = Inr (PosInf, M)"
      using f by (simp only: minimax_is_full)
    then show False using shallow_min_not_top[OF assms(1)] by blast
  qed
qed

lemma shallow_value_min:
  assumes "d \<le> 1" and "move_value self board d (- 1) c = Some NegInf"
  shows "immediate_win board c (- 1)"
proof (cases "apply_move board c (- 1)")
  case (Inl e)
  then show ?thesis using assms(2) by (simp add: move_value_def)
next
  case (Inr t)
  then obtain nb i c' where am: "apply_move board c (- 1) = Inr (nb, i, c')" by (cases t) auto
  show ?thesis
  proof (rule ccontr)
    assume "\<not> immediate_win board c (- 1)"
    then have nw: "\<not> check_win nb (- 1) i c'" using immediate_win_Inr[OF am] by simp
    obtain V M where f: "full self nb d True = Inr (V, M)" using full_total by blast
    then have "V = NegInf" using assms(2) am nw by (simp add: move_value_def)
    then have "minimax self nb d True NegInf PosInf = Inr (NegInf, M)"
      using f by (simp only: minimax_is_full)
    then show False using shallow_max_not_bottom[OF assms(1)] by blast
  qed
qed

text \<open>
  Claim C2, as the code has it.  At depth 1 or more, when some legal column \<open>w\<close> wins
  at once for the side to move, the search over the full window returns the infinity of
  that side (\<open>PosInf\<close> when maximising, \<open>NegInf\<close> when minimising) and the lowest legal
  column whose value is that infinity; this column is not above \<open>w\<close>.  At depth 1 and 2
  it is the lowest legal column that wins at once.
\<close>
theorem immediate_win_scores_infinity:
  assumes "0 < depth" and "w \<in> set (valid_moves board)"
    and "immediate_win board w (if maximizing then 1 else - 1)"
  shows "\<exists>m. minimax self board depth maximizing NegInf PosInf
                = Inr (if maximizing then PosInf else NegInf, Some m) \<and>
              m \<in> set (valid_moves board) \<and> m \<le> w \<and>
              move_value self board (depth - 1) (if maximizing then 1 else - 1) m
                = Some (if maximizing then PosInf else NegInf) \<and>
              (\<forall>c \<in> set (valid_moves board).
                 move_value self board (depth - 1) (if maximizing then 1 else - 1) c
                   = Some (if maximizing then PosInf else NegInf) \<longrightarrow> m \<le> c) \<and>
              (depth \<le> 2 \<longrightarrow>
                 immediate_win board m (if maximizing then 1 else - 1) \<and>
                 (\<forall>c \<in> set (valid_moves board).
                    immediate_win board c (if maximizing then 1 else - 1) \<longrightarrow> m \<le> c))"
proof -
  obtain d where d: "depth = Suc d" using assms(1) by (cases depth) auto
  have ne: "valid_moves board \<noteq> []" using assms(2) by auto
  show ?thesis
  proof (cases maximizing)
    case True
    have wv: "move_value self board d 1 c = Some PosInf"
      if "c \<in> set (valid_moves board)" "immediate_win board c 1" for c
      using immediate_win_value[OF that, of self d] by simp
    obtain v m where r: "minimax self board (Suc d) True NegInf PosInf = Inr (v, Some m)"
      and m: "m \<in> set (valid_moves board)" "move_value self board d 1 m = Some v"
      and all: "\<forall>c \<in> set (valid_moves board). \<exists>e. move_value self board d 1 c = Some e \<and>
              e \<le> v \<and> (e = v \<longrightarrow> m \<le> c)"
      using root_max_best[OF ne, of self d] by blast
    have "PosInf \<le> v \<and> (PosInf = v \<longrightarrow> m \<le> w)"
      using all assms(2,3) wv[of w] True by fastforce
    then have v: "v = PosInf" and mw: "m \<le> w" by auto
    have least: "m \<le> c" if "c \<in> set (valid_moves board)" "move_value self board d 1 c = Some PosInf" for c
      using all that v by fastforce
    have sh: "immediate_win board m 1" if "depth \<le> 2"
      using shallow_value_max[of d self board m] m(2) v that d by simp
    show ?thesis
      using r m v mw least sh wv True d by (auto simp del: minimax.simps)
  next
    case False
    have wv: "move_value self board d (- 1) c = Some NegInf"
      if "c \<in> set (valid_moves board)" "immediate_win board c (- 1)" for c
      using immediate_win_value[OF that, of self d] by simp
    obtain v m where r: "minimax self board (Suc d) False NegInf PosInf = Inr (v, Some m)"
      and m: "m \<in> set (valid_moves board)" "move_value self board d (- 1) m = Some v"
      and all: "\<forall>c \<in> set (valid_moves board). \<exists>e. move_value self board d (- 1) c = Some e \<and>
              v \<le> e \<and> (e = v \<longrightarrow> m \<le> c)"
      using root_min_best[OF ne, of self d] by blast
    have "v \<le> NegInf \<and> (NegInf = v \<longrightarrow> m \<le> w)"
      using all assms(2,3) wv[of w] False by fastforce
    then have v: "v = NegInf" and mw: "m \<le> w" by auto
    have least: "m \<le> c" if "c \<in> set (valid_moves board)" "move_value self board d (- 1) c = Some NegInf" for c
      using all that v by fastforce
    have sh: "immediate_win board m (- 1)" if "depth \<le> 2"
      using shallow_value_min[of d self board m] m(2) v that d by simp
    show ?thesis
      using r m v mw least sh wv False d by (auto simp del: minimax.simps)
  qed
qed

text \<open>
  At depth 3 the returned column need not win at once: on \<open>open_three\<close> column 1 wins,
  but the subtree of column 0 already scores \<open>PosInf\<close>, the loop stops there and the
  search returns column 0, which does not complete four in a row.
\<close>

theorem immediate_win_counterexample:
  "1 \<in> set (valid_moves open_three) \<and> immediate_win open_three 1 1 \<and>
   \<not> immediate_win open_three 0 1 \<and>
   minimax (simple_player 3) open_three 3 True NegInf PosInf = Inr (PosInf, Some 0)"
  by code_simp

lemma immediate_win_open_three: "immediate_win open_three 1 1"
  by code_simp

theorem immediate_win_scores_infinity_witness:
  "\<exists>m. minimax (simple_player 3) open_three 3 True NegInf PosInf = Inr (PosInf, Some m) \<and>
       m \<le> 1 \<and> move_value (simple_player 3) open_three 2 1 m = Some PosInf"
  using immediate_win_scores_infinity[of 3 1 open_three True "simple_player 3"]
    immediate_win_open_three
  by (simp add: valid_moves_open_three del: minimax.simps) blast

end
